theory Spec2Isabelle
  imports Main "HOL-Library.Log_Nat" "HOL-Library.Sublist"
begin

section \<open>Strings\<close>

text \<open>
  A JavaScript string is a sequence of UTF-16 code units; a code unit is modelled by its
  numeric value, so \<open>length\<close> is the string's \<open>.length\<close> and offsets count code units.
  \<open>js\<close> writes an ASCII literal.
\<close>

type_synonym jschar = int
type_synonym jsstring = "jschar list"

definition js :: "string \<Rightarrow> jsstring" where
  "js s = map of_char s"

text \<open>
  The regular expression class \<open>\s\<close> and \<open>String.prototype.trim\<close> use the same set: the
  ECMAScript WhiteSpace code points (TAB, VT, FF, SP, NBSP, ZWNBSP and the Unicode space
  separators) together with the LineTerminator code points (LF, CR, LS, PS).
\<close>

definition is_line_terminator :: "jschar \<Rightarrow> bool" where
  "is_line_terminator c \<longleftrightarrow> c = 10 \<or> c = 13 \<or> c = 8232 \<or> c = 8233"

definition is_space :: "jschar \<Rightarrow> bool" where
  "is_space c \<longleftrightarrow>
     c = 9 \<or> c = 10 \<or> c = 11 \<or> c = 12 \<or> c = 13 \<or> c = 32 \<or> c = 160 \<or> c = 5760 \<or>
     (8192 \<le> c \<and> c \<le> 8202) \<or> c = 8232 \<or> c = 8233 \<or> c = 8239 \<or> c = 8287 \<or>
     c = 12288 \<or> c = 65279"

definition is_digit :: "jschar \<Rightarrow> bool" where
  "is_digit c \<longleftrightarrow> 48 \<le> c \<and> c \<le> 57"

definition is_letter :: "jschar \<Rightarrow> bool" where
  "is_letter c \<longleftrightarrow> (65 \<le> c \<and> c \<le> 90) \<or> (97 \<le> c \<and> c \<le> 122)"

text \<open>The class \<open>\w\<close> without the \<open>u\<close> and \<open>i\<close> flags: \<open>[A-Za-z0-9_]\<close>.\<close>

definition is_word_char :: "jschar \<Rightarrow> bool" where
  "is_word_char c \<longleftrightarrow> is_letter c \<or> is_digit c \<or> c = 95"

definition to_upper :: "jschar \<Rightarrow> jschar" where
  "to_upper c = (if 97 \<le> c \<and> c \<le> 122 then c - 32 else c)"

definition trim :: "jsstring \<Rightarrow> jsstring" where
  "trim s = rev (dropWhile is_space (rev (dropWhile is_space s)))"

text \<open>\<open>s.slice(a, b)\<close> for offsets \<open>0 \<le> a \<le> b\<close>.\<close>

definition slice :: "jsstring \<Rightarrow> nat \<Rightarrow> nat \<Rightarrow> jsstring" where
  "slice s a b = take (b - a) (drop a s)"

text \<open>
  \<open>s.indexOf(searchString, position)\<close>: the position is clamped to \<open>[0, length]\<close>, the
  result is the least offset at or after it where \<open>searchString\<close> occurs, and \<open>None\<close> stands
  for \<open>-1\<close>.  The empty string occurs at every offset up to the length.
\<close>

fun search :: "jsstring \<Rightarrow> jsstring \<Rightarrow> nat option" where
  "search needle [] = (if needle = [] then Some 0 else None)"
| "search needle (h # hs) =
     (if prefix needle (h # hs) then Some 0 else map_option Suc (search needle hs))"

definition indexOf :: "jsstring \<Rightarrow> jsstring \<Rightarrow> nat \<Rightarrow> nat option" where
  "indexOf s searchString position =
     (let k = min position (length s)
      in map_option (\<lambda>i. k + i) (search searchString (drop k s)))"

text \<open>\<open>xs.findIndex(p)\<close>, with \<open>None\<close> for \<open>-1\<close>.\<close>

fun findIndex :: "('a \<Rightarrow> bool) \<Rightarrow> 'a list \<Rightarrow> nat option" where
  "findIndex p [] = None"
| "findIndex p (x # xs) = (if p x then Some 0 else map_option Suc (findIndex p xs))"

text \<open>
  \<open>s.split(/\s+/)\<close>: the pieces between the maximal whitespace runs, empty pieces at the
  two ends included; a string without whitespace (the empty one too) gives one piece.
\<close>

function split_ws :: "jsstring \<Rightarrow> jsstring \<Rightarrow> jsstring list" where
  "split_ws piece [] = [piece]"
| "split_ws piece (c # cs) =
     (if is_space c then piece # split_ws [] (dropWhile is_space cs)
      else split_ws (piece @ [c]) cs)"
  by pat_completeness auto
termination
  by (relation "measure (\<lambda>(piece, s). length s)")
     (auto simp: le_imp_less_Suc length_dropWhile_le)

section \<open>Numbers\<close>

text \<open>
  A finite JavaScript number is a rational.  Every arithmetic operation of the source
  returns the exact result rounded to the nearest IEEE 754 binary64 value, ties to the even
  significand; \<open>fl\<close> is that rounding, on a 53-bit significand.  The exponent range is not
  bounded: overflow to \<open>Infinity\<close> and gradual underflow are outside the model (the
  magnitudes that occur below lie between \<open>2^-1022\<close> and \<open>2^1023\<close> unless \<open>wpm\<close> is itself
  beyond \<open>10^300\<close> or below \<open>10^-300\<close>).  A decimal literal of the source denotes the
  rounding of its value: \<open>0.35\<close> is \<open>fl (7 / 20)\<close>, \<open>0.85\<close> is \<open>fl (17 / 20)\<close>, \<open>0.9\<close> is
  \<open>fl (9 / 10)\<close> and \<open>1.3\<close> is \<open>fl (13 / 10)\<close>; the integers that occur are exact.
\<close>

definition pow2 :: "int \<Rightarrow> rat" where
  "pow2 e = (if 0 \<le> e then 2 ^ nat e else 1 / 2 ^ nat (- e))"

definition round_half_even :: "rat \<Rightarrow> int" where
  "round_half_even q =
     (let f = \<lfloor>q\<rfloor>; r = q - of_int f
      in if r < 1 / 2 then f else if 1 / 2 < r then f + 1 else if even f then f else f + 1)"

text \<open>The exponent \<open>e\<close> with \<open>2^e \<le> x < 2^(e+1)\<close>, for \<open>x > 0\<close>.\<close>

definition binade :: "rat \<Rightarrow> int" where
  "binade x =
     (let (a, b) = quotient_of x; e = bitlen a - bitlen b
      in if pow2 e \<le> x then e else e - 1)"

definition fl_pos :: "rat \<Rightarrow> rat" where
  "fl_pos x = (let ulp = pow2 (binade x - 52) in of_int (round_half_even (x / ulp)) * ulp)"

definition fl :: "rat \<Rightarrow> rat" where
  "fl x = (if x = 0 then 0 else if x < 0 then - fl_pos (- x) else fl_pos x)"

definition fmul :: "rat \<Rightarrow> rat \<Rightarrow> rat" where
  "fmul x y = fl (x * y)"

definition fdiv :: "rat \<Rightarrow> rat \<Rightarrow> rat" where
  "fdiv x y = fl (x / y)"

definition fadd :: "rat \<Rightarrow> rat \<Rightarrow> rat" where
  "fadd x y = fl (x + y)"

text \<open>
  \<open>Math.floor\<close> and \<open>Math.round\<close> are exact; \<open>Math.round\<close> takes a tie to the integer
  above.
\<close>

definition Math_floor :: "rat \<Rightarrow> int" where
  "Math_floor x = \<lfloor>x\<rfloor>"

definition Math_round :: "rat \<Rightarrow> int" where
  "Math_round x = \<lfloor>x + 1 / 2\<rfloor>"

section \<open>Regular expressions\<close>

text \<open>
  The fragment of ECMAScript patterns that the tokenizer and the chapter extractor use.
  A class is a predicate on code units; \<open>Rep greedy n cls\<close> repeats a class at least \<open>n\<close>
  times (\<open>cls*\<close>, \<open>cls+\<close>, and the lazy \<open>cls*?\<close>); \<open>Bol\<close> and \<open>Eol\<close> are \<open>^\<close> and \<open>$\<close> under
  the \<open>m\<close> flag; \<open>Group\<close> is the capture group 1.

  \<open>rmatch r t (p, c)\<close> lists, in the order in which the backtracking matcher tries them,
  the states in which \<open>r\<close> can end when started at offset \<open>p\<close> of \<open>t\<close> with capture \<open>c\<close>: an
  alternative tries its left branch first, a greedy repetition the longest run first, a
  lazy one the shortest.  The match that the engine reports is the head of the list.
\<close>

datatype regex =
    Eps
  | Chr "jschar \<Rightarrow> bool"
  | Seq regex regex
  | Alt regex regex
  | Rep bool nat "jschar \<Rightarrow> bool"
  | Bol
  | Eol
  | Group regex

type_synonym capture = "(nat \<times> nat) option"

fun rmatch :: "regex \<Rightarrow> jsstring \<Rightarrow> nat \<times> capture \<Rightarrow> (nat \<times> capture) list" where
  "rmatch Eps t (p, c) = [(p, c)]"
| "rmatch (Chr cls) t (p, c) = (if p < length t \<and> cls (t ! p) then [(Suc p, c)] else [])"
| "rmatch (Seq a b) t (p, c) = concat (map (rmatch b t) (rmatch a t (p, c)))"
| "rmatch (Alt a b) t (p, c) = rmatch a t (p, c) @ rmatch b t (p, c)"
| "rmatch (Rep greedy n cls) t (p, c) =
     (let m = length (takeWhile cls (drop p t)); ks = [n..<Suc m]
      in map (\<lambda>k. (p + k, c)) (if greedy then rev ks else ks))"
| "rmatch Bol t (p, c) = (if p = 0 \<or> is_line_terminator (t ! (p - 1)) then [(p, c)] else [])"
| "rmatch Eol t (p, c) = (if p = length t \<or> is_line_terminator (t ! p) then [(p, c)] else [])"
| "rmatch (Group r) t (p, c) = map (\<lambda>(q, _). (q, Some (p, q))) (rmatch r t (p, c))"

text \<open>
  \<open>regex.exec(text)\<close> for a pattern with the \<open>g\<close> flag and \<open>lastIndex = i\<close>: the match at the
  first offset from \<open>i\<close> on where the pattern matches, as (index, end, capture); the end
  becomes the next \<open>lastIndex\<close>.  \<open>None\<close> is \<open>null\<close>.
\<close>

function exec :: "regex \<Rightarrow> jsstring \<Rightarrow> nat \<Rightarrow> (nat \<times> nat \<times> capture) option" where
  "exec r t i =
     (if length t < i then None
      else case rmatch r t (i, None) of
             [] \<Rightarrow> exec r t (Suc i)
           | (e, c) # _ \<Rightarrow> Some (i, e, c))"
  by pat_completeness auto
termination
  by (relation "measure (\<lambda>(r, t, i). Suc (length t) - i)") auto

declare exec.simps [simp del]

lemma exec_index_bounds:
  "exec r t i = Some (s, e, c) \<Longrightarrow> i \<le> s \<and> s \<le> length t"
proof (induction r t i rule: exec.induct)
  case (1 r t i)
  show ?case
  proof (cases "rmatch r t (i, None)")
    case Nil
    with "1.prems" have "exec r t (Suc i) = Some (s, e, c)" and "\<not> length t < i"
      by (auto simp: exec.simps [of r t i] split: if_splits)
    with "1.IH"(1) Nil show ?thesis by fastforce
  next
    case (Cons m ms)
    with "1.prems" show ?thesis by (cases m) (auto simp: exec.simps [of r t i] split: if_splits)
  qed
qed

text \<open>
  The loop \<open>while ((match = regex.exec(text)) !== null) { ... }\<close>: all matches in order.
  \<open>exec\<close> does not step over an empty match, so after one the loop would find it again
  forever; \<open>None\<close> stands for that.
\<close>

function exec_all :: "regex \<Rightarrow> jsstring \<Rightarrow> nat \<Rightarrow> (nat \<times> nat \<times> capture) list option" where
  "exec_all r t i =
     (case exec r t i of
        None \<Rightarrow> Some []
      | Some (s, e, c) \<Rightarrow>
          if e \<le> s then None
          else map_option ((#) (s, e, c)) (exec_all r t e))"
  by pat_completeness auto
termination
proof (relation "measure (\<lambda>(r, t, i). Suc (length t) - i)")
  fix r t i x2 s y e c
  assume "exec r t i = Some x2" "(s, y) = x2" "(e, c) = y" "\<not> e \<le> s"
  then have "exec r t i = Some (s, e, c)" by simp
  from exec_index_bounds [OF this] \<open>\<not> e \<le> s\<close>
  show "((r, t, e), (r, t, i)) \<in> measure (\<lambda>(r, t, i). Suc (length t) - i)" by auto
qed simp

declare exec_all.simps [simp del]

text \<open>
  What the loop finds, as a relation: \<open>all_matches r t i ms\<close> holds when \<open>ms\<close> are the
  successive leftmost matches of \<open>r\<close> in \<open>t\<close> from offset \<open>i\<close> on, each one non-empty, each
  search starting where the previous match ended.
\<close>

inductive all_matches :: "regex \<Rightarrow> jsstring \<Rightarrow> nat \<Rightarrow> (nat \<times> nat \<times> capture) list \<Rightarrow> bool"
  for r :: regex and t :: jsstring where
  no_more: "(\<forall>j. i \<le> j \<and> j \<le> length t \<longrightarrow> rmatch r t (j, None) = []) \<Longrightarrow> all_matches r t i []"
| next_match:
    "i \<le> s \<Longrightarrow> s \<le> length t \<Longrightarrow> (\<forall>j. i \<le> j \<and> j < s \<longrightarrow> rmatch r t (j, None) = []) \<Longrightarrow>
     rmatch r t (s, None) = (e, c) # rest \<Longrightarrow> s < e \<Longrightarrow> all_matches r t e ms \<Longrightarrow>
     all_matches r t i ((s, e, c) # ms)"


section \<open>Data model\<close>

datatype kind = Word | Phrase | Entity | Idiom

record Chunk =
  text' :: jsstring
  start :: nat
  end' :: nat
  kind :: kind
  focalIndex :: nat

record Chapter =
  title :: jsstring
  chunkIndex :: nat

section \<open>rsvpUtils: focal index and delay\<close>

definition calculateFocalIndex :: "jsstring \<Rightarrow> nat" where
  "calculateFocalIndex txt =
     (let wordPart = trim txt
      in if length wordPart \<le> 1 then 0
         else nat (Math_floor (fmul (of_nat (length wordPart)) (fl (7 / 20)))))"

text \<open>\<open>/^([A-Za-z]\.)+$/.test(token)\<close>: one or more pairs of a letter and a dot, nothing else.\<close>

fun letter_dot_pairs :: "jsstring \<Rightarrow> bool" where
  "letter_dot_pairs [] = True"
| "letter_dot_pairs [a] = False"
| "letter_dot_pairs (a # d # rest) = (is_letter a \<and> d = 46 \<and> letter_dot_pairs rest)"

definition isAcronym :: "jsstring \<Rightarrow> bool" where
  "isAcronym token \<longleftrightarrow> token \<noteq> [] \<and> letter_dot_pairs token"

text \<open>
  \<open>/^(Mr|Mrs|Ms|Dr|Prof|Sr|Jr|St)\.$/i.test(token)\<close>: the whole token is one of the eight
  abbreviations and a dot, letters compared without case.
\<close>

definition isAbbreviation :: "jsstring \<Rightarrow> bool" where
  "isAbbreviation token \<longleftrightarrow>
     map to_upper token \<in>
       set (map js [''MR.'', ''MRS.'', ''MS.'', ''DR.'', ''PROF.'', ''SR.'', ''JR.'', ''ST.''])"

text \<open>\<open>/\d,$/.test(token)\<close>: the token ends with a digit and a comma.\<close>

definition isNumericComma :: "jsstring \<Rightarrow> bool" where
  "isNumericComma token \<longleftrightarrow>
     (case rev token of c # d # _ \<Rightarrow> c = 44 \<and> is_digit d | _ \<Rightarrow> False)"

text \<open>
  The delay in milliseconds.  \<open>wpm\<close> is a finite non-zero number (for \<open>wpm = 0\<close> the
  source divides to \<open>Infinity\<close>, which the model of numbers does not have).
\<close>

definition calculateChunkDelay :: "Chunk \<Rightarrow> rat \<Rightarrow> int" where
  "calculateChunkDelay chunk wpm =
     (let baseDelayMs = fdiv 60000 wpm;
          token = trim (text' chunk);
          len = length token;
          delay1 = (if len > 10 then fmul baseDelayMs (fl (13 / 10))
                    else if len < 3 then fmul baseDelayMs (fl (9 / 10))
                    else baseDelayMs);
          delay2 = (if kind chunk = Phrase \<or> kind chunk = Idiom
                    then (let wordCount = length (split_ws [] token)
                          in if wordCount > 1
                             then fmul baseDelayMs (fmul (of_nat wordCount) (fl (17 / 20)))
                             else delay1)
                    else delay1);
          lastChar = (if token = [] then [] else [last token]);
          delay3 = (if \<not> isAcronym token \<and> \<not> isAbbreviation token \<and> \<not> isNumericComma token
                    then (if lastChar \<in> set [js ''.'', js ''!'', js ''?'']
                          then fadd delay2 300
                          else if lastChar \<in> set [js '','', js '';'', js '':'']
                          then fdiv baseDelayMs (fl (9 / 10))
                          else delay2)
                    else delay2)
      in Math_round delay3)"

section \<open>rsvpUtils: the tokenizer\<close>

text \<open>
  The class of the word part: \<open>\w\<close>, the apostrophe, the right single quotation mark U+2019
  (written twice in the source, once as itself and once escaped) and the hyphen; and the class
  \<open>[.,!?;:]\<close>.
\<close>

definition is_token_char :: "jschar \<Rightarrow> bool" where
  "is_token_char c \<longleftrightarrow> is_word_char c \<or> c = 39 \<or> c = 8217 \<or> c = 45"

definition is_sentence_punct :: "jschar \<Rightarrow> bool" where
  "is_sentence_punct c \<longleftrightarrow> c = 46 \<or> c = 44 \<or> c = 33 \<or> c = 63 \<or> c = 59 \<or> c = 58"

definition chunker_regex :: regex where
  "chunker_regex =
     Alt (Seq (Rep True 1 is_token_char) (Rep True 0 is_sentence_punct))
         (Rep True 1 (\<lambda>c. \<not> is_space c))"

text \<open>\<open>None\<close>: the loop does not end.\<close>

definition algorithmicChunker :: "jsstring \<Rightarrow> Chunk list option" where
  "algorithmicChunker txt =
     map_option
       (map (\<lambda>(index, e, c).
          let token = slice txt index e
          in \<lparr>text' = token, start = index, end' = index + length token, kind = Word,
              focalIndex = calculateFocalIndex token\<rparr>))
       (exec_all chunker_regex txt 0)"

section \<open>rsvpUtils: the chapter extractor\<close>

text \<open>
  Under the \<open>i\<close> flag (without \<open>u\<close>) a lower-case ASCII letter of the pattern matches itself
  and its upper-case form, \<open>[a-z]\<close> and \<open>[ivxlcdm]\<close> match both cases, and no code unit from
  128 on matches an ASCII letter.  The dot matches every code unit but a line terminator.
\<close>

definition ci :: "char \<Rightarrow> regex" where
  "ci x = Chr (\<lambda>c. to_upper c = to_upper (of_char x))"

definition keyword :: "string \<Rightarrow> regex" where
  "keyword w = foldr (\<lambda>x r. Seq (ci x) r) w Eps"

definition is_roman :: "jschar \<Rightarrow> bool" where
  "is_roman c \<longleftrightarrow> to_upper c \<in> set (map to_upper (js ''ivxlcdm''))"

definition chapter_regex :: regex where
  "chapter_regex =
     Seq (Alt Bol (Chr (\<lambda>c. c = 10)))
    (Seq (Rep True 0 is_space)
    (Seq (Group
       (Alt (Seq (Alt (keyword ''chapter'') (Alt (keyword ''part'') (keyword ''book'')))
            (Seq (Rep True 1 is_space)
            (Seq (Alt (Rep True 1 is_letter) (Alt (Rep True 1 is_digit) (Rep True 1 is_roman)))
                 (Rep False 0 (\<lambda>c. \<not> is_line_terminator c)))))
            (Seq (Alt (keyword ''prologue'') (Alt (keyword ''epilogue'')
                 (Alt (keyword ''introduction'') (Alt (keyword ''preface'') (keyword ''foreword'')))))
                 (Rep False 0 (\<lambda>c. \<not> is_line_terminator c)))))
         (Alt (Seq (Alt (Chr (\<lambda>c. c = 13)) Eps) (Chr (\<lambda>c. c = 10))) Eol)))"

text \<open>
  The body of the loop, over the matches in order.  \<open>match[1]\<close> of a match without the
  capture is \<open>undefined\<close>, and \<open>.trim()\<close> on it throws: \<open>None\<close>.
\<close>

fun collect :: "jsstring \<Rightarrow> Chunk list \<Rightarrow> Chapter list \<Rightarrow> (nat \<times> nat \<times> capture) list
    \<Rightarrow> Chapter list option" where
  "collect txt cs chapters [] = Some chapters"
| "collect txt cs chapters ((index, e, None) # ms) = None"
| "collect txt cs chapters ((index, e, Some (a, b)) # ms) =
     (let title = trim (slice txt a b)
      in case findIndex (\<lambda>c. start c \<ge> index) cs of
           None \<Rightarrow> collect txt cs chapters ms
         | Some idx \<Rightarrow>
             if chapters = [] \<or> chunkIndex (last chapters) \<noteq> idx
             then collect txt cs
                    (chapters @
                      [\<lparr>title = (if length title > 50 then take 50 title @ js ''...'' else title),
                        chunkIndex = idx\<rparr>]) ms
             else collect txt cs chapters ms)"

text \<open>\<open>None\<close>: the call does not return (the loop does not end, or the body throws).\<close>

definition extractChapters :: "jsstring \<Rightarrow> Chunk list \<Rightarrow> Chapter list option" where
  "extractChapters txt cs =
     (case exec_all chapter_regex txt 0 of
        None \<Rightarrow> None
      | Some ms \<Rightarrow>
          (case collect txt cs [] ms of
             None \<Rightarrow> None
           | Some chapters \<Rightarrow>
               Some (if chapters = [] then [\<lparr>title = js ''Start of Text'', chunkIndex = 0\<rparr>]
                     else chapters)))"

section \<open>aiService: offsets for the enriched items\<close>

text \<open>
  The part of \<open>semanticChunkText\<close> after the response is parsed: \<open>parsed\<close> is the list
  \<open>parsed.chunks\<close> of (text, kind) items, \<open>txt\<close> the text that was sent.  The loop keeps the
  search offset \<open>currentSearchIndex\<close> and the list \<open>finalChunks\<close>.
\<close>

fun remap :: "jsstring \<Rightarrow> nat \<Rightarrow> Chunk list \<Rightarrow> (jsstring \<times> kind) list \<Rightarrow> Chunk list" where
  "remap txt currentSearchIndex finalChunks [] = finalChunks"
| "remap txt currentSearchIndex finalChunks ((item_text, item_kind) # items) =
     (case indexOf txt item_text currentSearchIndex of
        None \<Rightarrow> remap txt currentSearchIndex finalChunks items
      | Some st \<Rightarrow>
          let en = st + length item_text
          in remap txt en
               (finalChunks @
                 [\<lparr>text' = item_text, start = st, end' = en, kind = item_kind,
                   focalIndex = calculateFocalIndex item_text\<rparr>]) items)"

definition semanticChunkText :: "jsstring \<Rightarrow> (jsstring \<times> kind) list \<Rightarrow> Chunk list" where
  "semanticChunkText txt parsed = remap txt 0 [] parsed"

section \<open>App: merging the enriched chunks\<close>

text \<open>
  The merge in \<open>processAIChunks\<close>: \<open>existing\<close> is \<open>activeBook.chunks\<close>, the result the chunk
  sequence of the book afterwards.  Without smart chunks the book is left as it is.
\<close>

definition mergeChunks :: "Chunk list \<Rightarrow> Chunk list \<Rightarrow> Chunk list" where
  "mergeChunks existing smartChunks =
     (if length smartChunks > 0
      then (let lastSmartChunk = last smartChunks;
                boundaryEndIndex = end' lastSmartChunk;
                remainingChunks = filter (\<lambda>c. start c \<ge> boundaryEndIndex) existing
            in smartChunks @ remainingChunks)
      else existing)"

section \<open>Playback store\<close>

text \<open>
  The part of the store that the scheduler uses: the active book (of which only the chunk
  sequence matters here), the play flag and the current index.
\<close>

record Book =
  chunks :: "Chunk list"

record store =
  activeBook :: "Book option"
  isPlaying :: bool
  currentIndex :: int

definition setCurrentIndex :: "int \<Rightarrow> store \<Rightarrow> store" where
  "setCurrentIndex index s =
     (case activeBook s of
        None \<Rightarrow> s
      | Some b \<Rightarrow>
          let safeIndex = max 0 (min index (int (length (chunks b)) - 1))
          in s\<lparr>currentIndex := safeIndex\<rparr>)"

definition advanceIndex :: "store \<Rightarrow> store" where
  "advanceIndex s =
     (case activeBook s of
        None \<Rightarrow> s\<lparr>isPlaying := False\<rparr>
      | Some b \<Rightarrow>
          if currentIndex s \<ge> int (length (chunks b)) - 1
          then s\<lparr>isPlaying := False\<rparr>
          else s\<lparr>currentIndex := currentIndex s + 1\<rparr>)"

section \<open>The reconciler as the specification words it\<close>

text \<open>
  An item text occurs at an offset when the slice of that length there equals it; the first
  occurrence from \<open>p\<close> on is the least such offset that is at least \<open>p\<close>.  \<open>resolved t p items cs\<close>
  says that \<open>cs\<close> are the items resolved from left to right starting at \<open>p\<close>: an item that
  occurs at or after the end of the previous resolved item becomes a chunk at its first such
  occurrence, with the focal index recomputed, and an item that does not occur there is
  dropped.
\<close>

definition occurs_at :: "jsstring \<Rightarrow> jsstring \<Rightarrow> nat \<Rightarrow> bool" where
  "occurs_at txt w k \<longleftrightarrow> k + length w \<le> length txt \<and> slice txt k (k + length w) = w"

definition first_occurrence :: "jsstring \<Rightarrow> jsstring \<Rightarrow> nat \<Rightarrow> nat \<Rightarrow> bool" where
  "first_occurrence txt w p k \<longleftrightarrow>
     p \<le> k \<and> occurs_at txt w k \<and> (\<forall>j. p \<le> j \<and> j < k \<longrightarrow> \<not> occurs_at txt w j)"

inductive resolved :: "jsstring \<Rightarrow> nat \<Rightarrow> (jsstring \<times> kind) list \<Rightarrow> Chunk list \<Rightarrow> bool"
  for t :: jsstring where
  resolved_Nil: "resolved t p [] []"
| resolved_found:
    "first_occurrence t w p k \<Longrightarrow> resolved t (k + length w) items cs \<Longrightarrow>
     resolved t p ((w, kd) # items)
       (\<lparr>text' = w, start = k, end' = k + length w, kind = kd,
         focalIndex = calculateFocalIndex w\<rparr> # cs)"
| resolved_dropped:
    "\<forall>k\<ge>p. \<not> occurs_at t w k \<Longrightarrow> resolved t p items cs \<Longrightarrow>
     resolved t p ((w, kd) # items) cs"

section \<open>Reconciler: offsets and merge\<close>

lemma occurs_at_prefix: "occurs_at txt w k \<longleftrightarrow> k \<le> length txt \<and> prefix w (drop k txt)"
  unfolding occurs_at_def slice_def
  by (auto simp: prefix_def min_def) (metis append_eq_conv_conj length_drop le_diff_conv2 length_append add.commute le_add1 le_add2 take_all_iff append_take_drop_id)+


lemma search_Some:
  "search w hay = Some k \<Longrightarrow>
     k \<le> length hay \<and> prefix w (drop k hay) \<and> (\<forall>j<k. \<not> prefix w (drop j hay))"
proof (induction hay arbitrary: k)
  case Nil
  then show ?case by (auto split: if_splits)
next
  case (Cons h hs)
  show ?case
  proof (cases "prefix w (h # hs)")
    case True
    with Cons.prems show ?thesis by simp
  next
    case False
    with Cons.prems obtain k' where k': "search w hs = Some k'" "k = Suc k'" by auto
    from Cons.IH [OF k'(1)] False k'(2) show ?thesis
      by (auto simp: less_Suc_eq_0_disj)
  qed
qed

lemma search_None:
  "search w hay = None \<Longrightarrow> j \<le> length hay \<Longrightarrow> \<not> prefix w (drop j hay)"
proof (induction hay arbitrary: j)
  case Nil
  then show ?case by (auto split: if_splits)
next
  case (Cons h hs)
  from Cons.prems(1) have np: "\<not> prefix w (h # hs)" and rec: "search w hs = None"
    by (auto split: if_splits)
  show ?case
  proof (cases j)
    case 0
    with np show ?thesis by simp
  next
    case (Suc j')
    with Cons.prems(2) Cons.IH [OF rec, of j'] show ?thesis by simp
  qed
qed

lemma indexOf_Some:
  assumes "indexOf txt w p = Some k" and "p \<le> length txt"
  shows "first_occurrence txt w p k"
proof -
  from assms obtain i where i: "search w (drop p txt) = Some i" and k: "k = p + i"
    by (auto simp: indexOf_def min_def)
  from search_Some [OF i] have
    b: "i \<le> length txt - p" and pre: "prefix w (drop (p + i) txt)"
    and first: "\<forall>j<i. \<not> prefix w (drop (p + j) txt)"
    by (simp_all add: add.commute)
  have "\<not> occurs_at txt w j" if "p \<le> j" "j < k" for j
  proof -
    from that k have "j - p < i" by simp
    with first have "\<not> prefix w (drop (p + (j - p)) txt)" by blast
    with that show ?thesis by (simp add: occurs_at_prefix)
  qed
  with b pre k assms(2) show ?thesis
    by (auto simp: first_occurrence_def occurs_at_prefix)
qed

lemma indexOf_None:
  assumes "indexOf txt w p = None" and "p \<le> length txt" and "p \<le> k"
  shows "\<not> occurs_at txt w k"
proof
  assume occ: "occurs_at txt w k"
  from assms(1,2) have s: "search w (drop p txt) = None"
    by (auto simp: indexOf_def min_def)
  from occ have "k \<le> length txt" and pre: "prefix w (drop k txt)"
    by (simp_all add: occurs_at_prefix)
  with assms(3) have "k - p \<le> length (drop p txt)" by simp
  from search_None [OF s this] assms(3) pre show False by simp
qed

lemma remap_append: "remap txt p (acc @ final) items = acc @ remap txt p final items"
  by (induction items arbitrary: p final) (auto split: option.splits simp: Let_def)

lemma remap_acc: "remap txt p final items = final @ remap txt p [] items"
  using remap_append [of "txt" p final "[]" items] by simp

lemma remap_resolved:
  "p \<le> length txt \<Longrightarrow> resolved txt p items (remap txt p [] items)"
proof (induction items arbitrary: p)
  case Nil
  show ?case by (simp add: resolved_Nil)
next
  case (Cons item items)
  obtain w kd where item: "item = (w, kd)" by (cases item)
  show ?case
  proof (cases "indexOf txt w p")
    case None
    with indexOf_None [OF None Cons.prems] Cons.IH [OF Cons.prems] item show ?thesis
      by (auto intro: resolved_dropped)
  next
    case (Some k)
    from indexOf_Some [OF Some Cons.prems] have fo: "first_occurrence txt w p k" .
    then have "k + length w \<le> length txt" by (simp add: first_occurrence_def occurs_at_def)
    from Cons.IH [OF this] fo Some item show ?thesis
      by (simp add: Let_def remap_acc [of _ _ "[_]"] resolved_found)
  qed
qed


text \<open>
  C2.  The chunks that \<open>semanticChunkText\<close> returns for the parsed items are the items
  resolved from left to right from offset 0: each at the first occurrence of its text at or
  after the end of the previously resolved item, an item without such an occurrence dropped.
  The merge gives these chunks followed by exactly the existing chunks whose start is at
  least \<open>E\<close>, the end of the last resolved item, or 0 when none was resolved; so every
  existing chunk with start at least \<open>E\<close> is in the merged sequence.
\<close>

theorem reconciler_resolves_and_merges:
  "resolved txt 0 enriched (semanticChunkText txt enriched) \<and>
   mergeChunks existing (semanticChunkText txt enriched) =
     semanticChunkText txt enriched @
     filter (\<lambda>c. start c \<ge> (if semanticChunkText txt enriched = [] then 0
                            else end' (last (semanticChunkText txt enriched)))) existing \<and>
   (\<forall>c \<in> set existing.
      start c \<ge> (if semanticChunkText txt enriched = [] then 0
                  else end' (last (semanticChunkText txt enriched))) \<longrightarrow>
      c \<in> set (mergeChunks existing (semanticChunkText txt enriched)))"
proof -
  have "resolved txt 0 enriched (semanticChunkText txt enriched)"
    unfolding semanticChunkText_def by (rule remap_resolved) simp
  moreover have "mergeChunks existing smart =
      smart @ filter (\<lambda>c. start c \<ge> (if smart = [] then 0 else end' (last smart))) existing"
    for smart
    by (simp add: mergeChunks_def Let_def)
  ultimately show ?thesis by auto
qed

lemma reconciler_example_smart:
  "semanticChunkText (js ''a b a c d'') [(js ''a'', Word), (js ''zz'', Phrase), (js ''a c'', Phrase)] =
     [\<lparr>text' = js ''a'', start = 0, end' = 1, kind = Word, focalIndex = 0\<rparr>,
      \<lparr>text' = js ''a c'', start = 4, end' = 7, kind = Phrase, focalIndex = 1\<rparr>]"
  by code_simp

theorem reconciler_resolves_and_merges_witness:
  "resolved (js ''a b a c d'') 0 [(js ''a'', Word), (js ''zz'', Phrase), (js ''a c'', Phrase)]
     [\<lparr>text' = js ''a'', start = 0, end' = 1, kind = Word, focalIndex = 0\<rparr>,
      \<lparr>text' = js ''a c'', start = 4, end' = 7, kind = Phrase, focalIndex = 1\<rparr>] \<and>
   mergeChunks
     [\<lparr>text' = js ''a'', start = 0, end' = 1, kind = Word, focalIndex = 0\<rparr>,
      \<lparr>text' = js ''b'', start = 2, end' = 3, kind = Word, focalIndex = 0\<rparr>,
      \<lparr>text' = js ''a'', start = 4, end' = 5, kind = Word, focalIndex = 0\<rparr>,
      \<lparr>text' = js ''c'', start = 6, end' = 7, kind = Word, focalIndex = 0\<rparr>,
      \<lparr>text' = js ''d'', start = 8, end' = 9, kind = Word, focalIndex = 0\<rparr>]
     [\<lparr>text' = js ''a'', start = 0, end' = 1, kind = Word, focalIndex = 0\<rparr>,
      \<lparr>text' = js ''a c'', start = 4, end' = 7, kind = Phrase, focalIndex = 1\<rparr>] =
     [\<lparr>text' = js ''a'', start = 0, end' = 1, kind = Word, focalIndex = 0\<rparr>,
      \<lparr>text' = js ''a c'', start = 4, end' = 7, kind = Phrase, focalIndex = 1\<rparr>,
      \<lparr>text' = js ''d'', start = 8, end' = 9, kind = Word, focalIndex = 0\<rparr>]"
  using reconciler_resolves_and_merges [of "js ''a b a c d''"
      "[(js ''a'', Word), (js ''zz'', Phrase), (js ''a c'', Phrase)]"
      "[\<lparr>text' = js ''a'', start = 0, end' = 1, kind = Word, focalIndex = 0\<rparr>,
        \<lparr>text' = js ''b'', start = 2, end' = 3, kind = Word, focalIndex = 0\<rparr>,
        \<lparr>text' = js ''a'', start = 4, end' = 5, kind = Word, focalIndex = 0\<rparr>,
        \<lparr>text' = js ''c'', start = 6, end' = 7, kind = Word, focalIndex = 0\<rparr>,
        \<lparr>text' = js ''d'', start = 8, end' = 9, kind = Word, focalIndex = 0\<rparr>]"]
  unfolding reconciler_example_smart by simp

section \<open>Scheduler: seek and advance\<close>

text \<open>
  C3.  With a book loaded, seek (\<open>setCurrentIndex\<close>) stores the target clamped by
  \<open>max 0 (min index (len - 1))\<close> and changes nothing else, in particular not the play
  flag; on a non-empty sequence the stored index lies in \<open>[0, len - 1]\<close>.  On a sequence of
  100 chunks, seek(-5) stores 0 and seek(500) stores 99.  Advancing when the current index
  is already at (or beyond) the last index only clears the play flag and leaves the index
  where it is.  Both operations are total: the source has no failing branch.
\<close>

theorem seek_clamps_advance_pauses:
  assumes "activeBook s = Some b"
  shows "setCurrentIndex i s = s\<lparr>currentIndex := max 0 (min i (int (length (chunks b)) - 1))\<rparr>
    \<and> (chunks b \<noteq> [] \<longrightarrow>
           0 \<le> currentIndex (setCurrentIndex i s) \<and>
           currentIndex (setCurrentIndex i s) \<le> int (length (chunks b)) - 1)
    \<and> isPlaying (setCurrentIndex i s) = isPlaying s
    \<and> (length (chunks b) = 100 \<longrightarrow>
           currentIndex (setCurrentIndex (- 5) s) = 0 \<and>
           currentIndex (setCurrentIndex 500 s) = 99)
    \<and> (currentIndex s = int (length (chunks b)) - 1 \<longrightarrow>
           advanceIndex s = s\<lparr>isPlaying := False\<rparr> \<and>
           isPlaying (advanceIndex s) = False \<and>
           currentIndex (advanceIndex s) = int (length (chunks b)) - 1)"
  using assms by (auto simp: setCurrentIndex_def advanceIndex_def Let_def)

theorem seek_clamps_advance_pauses_witness:
  "currentIndex (setCurrentIndex (- 5)
      \<lparr>activeBook = Some \<lparr>chunks = replicate 100 \<lparr>text' = [72, 105], start = 0, end' = 2, kind = Word, focalIndex = 0\<rparr>\<rparr>,
       isPlaying = True, currentIndex = 99\<rparr>) = 0
   \<and> currentIndex (setCurrentIndex 500
      \<lparr>activeBook = Some \<lparr>chunks = replicate 100 \<lparr>text' = [72, 105], start = 0, end' = 2, kind = Word, focalIndex = 0\<rparr>\<rparr>,
       isPlaying = True, currentIndex = 99\<rparr>) = 99
   \<and> isPlaying (setCurrentIndex 500
      \<lparr>activeBook = Some \<lparr>chunks = replicate 100 \<lparr>text' = [72, 105], start = 0, end' = 2, kind = Word, focalIndex = 0\<rparr>\<rparr>,
       isPlaying = True, currentIndex = 99\<rparr>)
   \<and> advanceIndex
      \<lparr>activeBook = Some \<lparr>chunks = replicate 100 \<lparr>text' = [72, 105], start = 0, end' = 2, kind = Word, focalIndex = 0\<rparr>\<rparr>,
       isPlaying = True, currentIndex = 99\<rparr>
     = \<lparr>activeBook = Some \<lparr>chunks = replicate 100 \<lparr>text' = [72, 105], start = 0, end' = 2, kind = Word, focalIndex = 0\<rparr>\<rparr>,
        isPlaying = False, currentIndex = 99\<rparr>"
  using seek_clamps_advance_pauses [of
      "\<lparr>activeBook = Some \<lparr>chunks = replicate 100 \<lparr>text' = [72, 105], start = 0, end' = 2, kind = Word, focalIndex = 0\<rparr>\<rparr>,
        isPlaying = True, currentIndex = 99\<rparr>"
      "\<lparr>chunks = replicate 100 \<lparr>text' = [72, 105], start = 0, end' = 2, kind = Word, focalIndex = 0\<rparr>\<rparr>"]
  by simp

section \<open>The chapter list as the specification words it\<close>

text \<open>
  A text has a heading-like line when the pattern of the extractor matches at some offset.
  The candidates are the markers of the matches that resolve to a chunk index, in the order
  of the matches, before any is removed; \<open>dedup_first\<close> removes from consecutive candidates
  with the same chunk index all but the first.
\<close>

definition heading_like :: "jsstring \<Rightarrow> bool" where
  "heading_like t \<longleftrightarrow> list_ex (\<lambda>i. rmatch chapter_regex t (i, None) \<noteq> []) [0..<Suc (length t)]"

fun candidates :: "jsstring \<Rightarrow> Chunk list \<Rightarrow> (nat \<times> nat \<times> capture) list \<Rightarrow> Chapter list" where
  "candidates t cs [] = []"
| "candidates t cs ((index, e, cap) # ms) =
     (case (cap, findIndex (\<lambda>c. start c \<ge> index) cs) of
        (Some (a, b), Some idx) \<Rightarrow>
          [\<lparr>title = (if length (trim (slice t a b)) > 50
                      then take 50 (trim (slice t a b)) @ js ''...''
                      else trim (slice t a b)),
            chunkIndex = idx\<rparr>]
      | _ \<Rightarrow> []) @ candidates t cs ms"

fun dedup_first :: "Chapter list \<Rightarrow> Chapter list" where
  "dedup_first [] = []"
| "dedup_first [x] = [x]"
| "dedup_first (x # y # zs) =
     (if chunkIndex x = chunkIndex y then dedup_first (x # zs) else x # dedup_first (y # zs))"

text \<open>
  Two measures on patterns: the least number of code units a match consumes, and whether
  every match passes through the capture group.
\<close>

primrec min_len :: "regex \<Rightarrow> nat" where
  "min_len Eps = 0"
| "min_len (Chr cls) = 1"
| "min_len (Seq a b) = min_len a + min_len b"
| "min_len (Alt a b) = min (min_len a) (min_len b)"
| "min_len (Rep greedy n cls) = n"
| "min_len Bol = 0"
| "min_len Eol = 0"
| "min_len (Group r) = min_len r"

primrec sets_group :: "regex \<Rightarrow> bool" where
  "sets_group Eps = False"
| "sets_group (Chr cls) = False"
| "sets_group (Seq a b) = (sets_group a \<or> sets_group b)"
| "sets_group (Alt a b) = (sets_group a \<and> sets_group b)"
| "sets_group (Rep greedy n cls) = False"
| "sets_group Bol = False"
| "sets_group Eol = False"
| "sets_group (Group r) = True"

section \<open>Regular expressions: properties of the matcher and of the loop\<close>

lemma takeWhile_drop_nth:
  assumes "k < length (takeWhile cls (drop p t))"
  shows "p + k < length t \<and> cls (t ! (p + k))"
proof -
  from assms length_takeWhile_le [of cls "drop p t"] have "k < length (drop p t)" by linarith
  then have b: "p + k < length t" by simp
  from assms have "cls (takeWhile cls (drop p t) ! k)"
    using nth_mem set_takeWhileD by metis
  with assms b show ?thesis by (simp add: takeWhile_nth)
qed

lemma takeWhile_drop_pos:
  "0 < length (takeWhile cls (drop p t)) \<longleftrightarrow> p < length t \<and> cls (t ! p)"
proof (cases "p < length t")
  case True
  then have "drop p t = t ! p # drop (Suc p) t" by (simp add: Cons_nth_drop_Suc)
  then show ?thesis using True by simp
next
  case False
  then show ?thesis by simp
qed

lemma rmatch_Rep_set:
  "set (rmatch (Rep g n cls) t (p, c)) =
     {(p + k, c) | k. n \<le> k \<and> k \<le> length (takeWhile cls (drop p t))}"
  by (auto simp: Let_def)

lemma rmatch_Seq_set:
  "set (rmatch (Seq a b) t (p, c)) = (\<Union>st \<in> set (rmatch a t (p, c)). set (rmatch b t st))"
  by simp

lemma rmatch_bounds:
  "(q, c') \<in> set (rmatch r t (p, c)) \<Longrightarrow> p \<le> length t \<Longrightarrow> p \<le> q \<and> q \<le> length t"
proof (induction r arbitrary: p c q c')
  case (Seq a b)
  from Seq.prems(1) obtain m cm where m: "(m, cm) \<in> set (rmatch a t (p, c))"
    and q: "(q, c') \<in> set (rmatch b t (m, cm))" by auto
  from Seq.IH(1) [OF m Seq.prems(2)] have "p \<le> m" "m \<le> length t" by simp_all
  with Seq.IH(2) [OF q] show ?case by simp
next
  case (Rep g n cls)
  from Rep.prems(1) [unfolded rmatch_Rep_set]
  obtain k where k: "q = p + k" "k \<le> length (takeWhile cls (drop p t))"
    by blast
  with length_takeWhile_le [of cls "drop p t"] Rep.prems(2) show ?case by simp
qed (auto split: if_splits)

lemma exec_Some:
  "exec r t i = Some (s, e, c) \<Longrightarrow>
     i \<le> s \<and> s \<le> length t \<and> (\<exists>rest. rmatch r t (s, None) = (e, c) # rest) \<and>
     (\<forall>j. i \<le> j \<and> j < s \<longrightarrow> rmatch r t (j, None) = [])"
proof (induction r t i rule: exec.induct)
  case (1 r t i)
  from "1.prems" have le: "i \<le> length t"
    by (auto simp: exec.simps [of r t i] split: if_splits)
  show ?case
  proof (cases "rmatch r t (i, None)")
    case Nil
    with "1.prems" le have ex: "exec r t (Suc i) = Some (s, e, c)"
      by (simp add: exec.simps [of r t i])
    from "1.IH" [OF _ Nil ex] le
    have ih: "Suc i \<le> s" "s \<le> length t" "\<exists>rest. rmatch r t (s, None) = (e, c) # rest"
      "\<forall>j. Suc i \<le> j \<and> j < s \<longrightarrow> rmatch r t (j, None) = []" by simp_all
    have "rmatch r t (j, None) = []" if "i \<le> j" "j < s" for j
      using that ih(4) Nil by (cases "j = i") auto
    with ih show ?thesis by simp
  next
    case (Cons m ms)
    with "1.prems" le show ?thesis by (cases m) (auto simp: exec.simps [of r t i])
  qed
qed

lemma exec_None:
  "exec r t i = None \<Longrightarrow> i \<le> j \<Longrightarrow> j \<le> length t \<Longrightarrow> rmatch r t (j, None) = []"
proof (induction r t i rule: exec.induct)
  case (1 r t i)
  from "1.prems" have le: "i \<le> length t" by simp
  show ?case
  proof (cases "rmatch r t (i, None)")
    case Nil
    with "1.prems" le have ex: "exec r t (Suc i) = None"
      by (simp add: exec.simps [of r t i])
    show ?thesis
    proof (cases "j = i")
      case True
      with Nil show ?thesis by simp
    next
      case False
      with "1.prems" have "Suc i \<le> j" by simp
      from "1.IH" [OF _ Nil ex this "1.prems"(3)] le show ?thesis by simp
    qed
  next
    case (Cons m ms)
    with "1.prems" le show ?thesis by (cases m) (auto simp: exec.simps [of r t i])
  qed
qed

lemma exec_all_total:
  assumes progress: "\<And>s e c. s \<le> length t \<Longrightarrow> (e, c) \<in> set (rmatch r t (s, None)) \<Longrightarrow> s < e"
  shows "\<exists>ms. exec_all r t i = Some ms \<and> all_matches r t i ms"
proof (induction "Suc (length t) - i" arbitrary: i rule: less_induct)
  case less
  show ?case
  proof (cases "exec r t i")
    case None
    then have "exec_all r t i = Some []" by (simp add: exec_all.simps [of r t i])
    moreover from exec_None [OF None] have "all_matches r t i []" by (auto intro: no_more)
    ultimately show ?thesis by blast
  next
    case (Some m)
    obtain s e c where m: "m = (s, e, c)" by (cases m)
    from exec_Some [OF Some [unfolded m]] obtain rest where
      s: "i \<le> s" "s \<le> length t" and hd: "rmatch r t (s, None) = (e, c) # rest"
      and gap: "\<forall>j. i \<le> j \<and> j < s \<longrightarrow> rmatch r t (j, None) = []" by blast
    from progress [OF s(2), of e c] hd have se: "s < e" by simp
    with s have "Suc (length t) - e < Suc (length t) - i" by simp
    from less [OF this] obtain ms where ms: "exec_all r t e = Some ms" "all_matches r t e ms"
      by blast
    from Some m se ms(1) have "exec_all r t i = Some ((s, e, c) # ms)"
      by (simp add: exec_all.simps [of r t i])
    moreover from next_match [OF s gap hd se ms(2)] have "all_matches r t i ((s, e, c) # ms)" .
    ultimately show ?thesis by blast
  qed
qed


section \<open>Tokenizer\<close>

lemma token_chars_nonspace:
  "is_token_char x \<Longrightarrow> \<not> is_space x" "is_sentence_punct x \<Longrightarrow> \<not> is_space x"
  by (auto simp: is_token_char_def is_sentence_punct_def is_space_def is_word_char_def
      is_letter_def is_digit_def)

lemma chunker_match:
  assumes "(e, c) \<in> set (rmatch chunker_regex t (s, None))" and "s \<le> length t"
  shows "s < e \<and> e \<le> length t \<and> (\<forall>k. s \<le> k \<and> k < e \<longrightarrow> \<not> is_space (t ! k))"
proof -
  from rmatch_bounds [OF assms] have e: "e \<le> length t" by simp
  from assms(1) have un:
    "(e, c) \<in> (\<Union>st \<in> set (rmatch (Rep True 1 is_token_char) t (s, None)).
                 set (rmatch (Rep True 0 is_sentence_punct) t st)) \<or>
     (e, c) \<in> set (rmatch (Rep True 1 (\<lambda>x. \<not> is_space x)) t (s, None))"
    by (simp only: chunker_regex_def rmatch.simps(4) set_append rmatch_Seq_set Un_iff)
  have "(\<exists>k1 k2. 1 \<le> k1 \<and> k1 \<le> length (takeWhile is_token_char (drop s t)) \<and>
      k2 \<le> length (takeWhile is_sentence_punct (drop (s + k1) t)) \<and> e = s + k1 + k2) \<or>
    (\<exists>k. 1 \<le> k \<and> k \<le> length (takeWhile (\<lambda>x. \<not> is_space x) (drop s t)) \<and> e = s + k)"
  proof (rule disjE [OF un])
    assume "(e, c) \<in> (\<Union>st \<in> set (rmatch (Rep True 1 is_token_char) t (s, None)).
                 set (rmatch (Rep True 0 is_sentence_punct) t st))"
    then obtain st where st: "st \<in> set (rmatch (Rep True 1 is_token_char) t (s, None))"
      and ec: "(e, c) \<in> set (rmatch (Rep True 0 is_sentence_punct) t st)" by blast
    from st [unfolded rmatch_Rep_set] obtain k1 where
      k1: "st = (s + k1, None)" "1 \<le> k1" "k1 \<le> length (takeWhile is_token_char (drop s t))"
      by blast
    from ec [unfolded k1(1) rmatch_Rep_set] obtain k2 where
      "e = s + k1 + k2" "k2 \<le> length (takeWhile is_sentence_punct (drop (s + k1) t))"
      by blast
    with k1 show ?thesis by blast
  next
    assume "(e, c) \<in> set (rmatch (Rep True 1 (\<lambda>x. \<not> is_space x)) t (s, None))"
    from this [unfolded rmatch_Rep_set] show ?thesis by blast
  qed
  then consider
    (word) k1 k2 where "1 \<le> k1" "k1 \<le> length (takeWhile is_token_char (drop s t))"
      "k2 \<le> length (takeWhile is_sentence_punct (drop (s + k1) t))" "e = s + k1 + k2"
    | (other) k where "1 \<le> k" "k \<le> length (takeWhile (\<lambda>x. \<not> is_space x) (drop s t))" "e = s + k"
    by blast
  then show ?thesis
  proof cases
    case word
    have "\<not> is_space (t ! k)" if "s \<le> k" "k < e" for k
    proof (cases "k < s + k1")
      case True
      with that word(2) have "k - s < length (takeWhile is_token_char (drop s t))" by simp
      from takeWhile_drop_nth [OF this] that(1) show ?thesis
        by (simp add: token_chars_nonspace)
    next
      case False
      with that word(3,4)
      have "k - (s + k1) < length (takeWhile is_sentence_punct (drop (s + k1) t))" by simp
      from takeWhile_drop_nth [OF this] False show ?thesis
        by (simp add: token_chars_nonspace)
    qed
    with word e show ?thesis by simp
  next
    case other
    have "\<not> is_space (t ! k)" if "s \<le> k" "k < e" for k
    proof -
      from that other have "k - s < length (takeWhile (\<lambda>x. \<not> is_space x) (drop s t))" by simp
      from takeWhile_drop_nth [OF this] that(1) show ?thesis by simp
    qed
    with other e show ?thesis by simp
  qed
qed

lemma chunker_nomatch:
  assumes "rmatch chunker_regex t (j, None) = []" and "j < length t"
  shows "is_space (t ! j)"
proof (rule ccontr)
  assume "\<not> is_space (t ! j)"
  with assms(2) have "0 < length (takeWhile (\<lambda>x. \<not> is_space x) (drop j t))"
    by (simp only: takeWhile_drop_pos simp_thms)
  then have "1 \<le> length (takeWhile (\<lambda>x. \<not> is_space x) (drop j t))" by linarith
  then have "(j + 1, None) \<in> set (rmatch (Rep True 1 (\<lambda>x. \<not> is_space x)) t (j, None))"
    unfolding rmatch_Rep_set by blast
  then have "(j + 1, None) \<in> set (rmatch chunker_regex t (j, None))"
    by (simp only: chunker_regex_def rmatch.simps(4) set_append Un_iff simp_thms)
  with assms(1) show False by simp
qed

lemma drop_split: "i \<le> s \<Longrightarrow> s \<le> length t \<Longrightarrow> drop i t = slice t i s @ drop s t"
proof -
  assume a: "i \<le> s" "s \<le> length t"
  have "drop i t = take (s - i) (drop i t) @ drop (s - i) (drop i t)"
    by (rule append_take_drop_id [symmetric])
  also from a have "drop (s - i) (drop i t) = drop s t" by simp
  finally show ?thesis by (simp add: slice_def)
qed

lemma slice_all:
  assumes "\<forall>k. a \<le> k \<and> k < b \<longrightarrow> P (t ! k)" and "b \<le> length t"
  shows "\<forall>x \<in> set (slice t a b). P x"
proof
  fix x assume "x \<in> set (slice t a b)"
  then obtain n where n: "n < length (slice t a b)" "slice t a b ! n = x"
    by (auto simp: in_set_conv_nth)
  with assms(2) have "n < b - a" "x = t ! (a + n)" by (auto simp: slice_def)
  with assms(1) show "P x" by simp
qed

lemma drop_all:
  assumes "\<forall>k. a \<le> k \<and> k < length t \<longrightarrow> P (t ! k)"
  shows "\<forall>x \<in> set (drop a t). P x"
proof
  fix x assume "x \<in> set (drop a t)"
  then obtain n where n: "n < length (drop a t)" "drop a t ! n = x"
    by (auto simp: in_set_conv_nth)
  then have "a + n < length t" "x = t ! (a + n)" by auto
  with assms show "P x" by simp
qed

lemma chunker_matches:
  "all_matches chunker_regex t i ms \<Longrightarrow> i \<le> length t \<Longrightarrow>
     concat (map (\<lambda>(s, e, c). slice t s e) ms) = filter (\<lambda>x. \<not> is_space x) (drop i t) \<and>
     (\<forall>(s, e, c) \<in> set ms. i \<le> s \<and> s < e \<and> e \<le> length t) \<and>
     sorted_wrt (\<lambda>a b. fst (snd a) \<le> fst b) ms"
proof (induction rule: all_matches.induct)
  case (no_more i)
  from no_more.hyps have "\<forall>k. i \<le> k \<and> k < length t \<longrightarrow> is_space (t ! k)"
    by (auto intro: chunker_nomatch)
  from drop_all [OF this] have "filter (\<lambda>x. \<not> is_space x) (drop i t) = []"
    by (simp add: filter_empty_conv)
  then show ?case by simp
next
  case (next_match i s e c rest ms)
  from next_match.hyps(4) have "(e, c) \<in> set (rmatch chunker_regex t (s, None))" by simp
  from chunker_match [OF this next_match.hyps(2)]
  have e: "e \<le> length t" and tok: "\<forall>k. s \<le> k \<and> k < e \<longrightarrow> \<not> is_space (t ! k)" by simp_all
  from next_match.IH [OF e] have
    ih1: "concat (map (\<lambda>(s, e, c). slice t s e) ms) = filter (\<lambda>x. \<not> is_space x) (drop e t)"
    and ih2: "\<forall>(s', e', c') \<in> set ms. e \<le> s' \<and> s' < e' \<and> e' \<le> length t"
    and ih3: "sorted_wrt (\<lambda>a b. fst (snd a) \<le> fst b) ms" by simp_all
  from next_match.hyps(2,3) have "\<forall>k. i \<le> k \<and> k < s \<longrightarrow> is_space (t ! k)"
    by (auto intro: chunker_nomatch)
  from slice_all [OF this next_match.hyps(2)]
  have gap: "filter (\<lambda>x. \<not> is_space x) (slice t i s) = []"
    by (simp add: filter_empty_conv)
  from slice_all [OF tok e]
  have token: "filter (\<lambda>x. \<not> is_space x) (slice t s e) = slice t s e"
    by (simp add: filter_id_conv)
  from next_match.hyps(5) have se: "s \<le> e" by simp
  have "drop i t = slice t i s @ slice t s e @ drop e t"
    using drop_split [OF next_match.hyps(1,2)] drop_split [OF se e] by simp
  then have "filter (\<lambda>x. \<not> is_space x) (drop i t) = slice t s e @ filter (\<lambda>x. \<not> is_space x) (drop e t)"
    by (simp add: gap token)
  with ih1 have c1: "concat (map (\<lambda>(s, e, c). slice t s e) ((s, e, c) # ms)) =
      filter (\<lambda>x. \<not> is_space x) (drop i t)" by simp
  from ih2 next_match.hyps(1,5) e have c2:
    "\<forall>(s', e', c') \<in> set ((s, e, c) # ms). i \<le> s' \<and> s' < e' \<and> e' \<le> length t"
    by auto
  from ih2 ih3 have c3: "sorted_wrt (\<lambda>a b. fst (snd a) \<le> fst b) ((s, e, c) # ms)"
    by auto
  from c1 c2 c3 show ?case by blast
qed


lemma chunker_example:
  "algorithmicChunker (js '' Hi,  you'') =
     Some [\<lparr>text' = js ''Hi,'', start = 1, end' = 4, kind = Word, focalIndex = 1\<rparr>,
           \<lparr>text' = js ''you'', start = 6, end' = 9, kind = Word, focalIndex = 1\<rparr>]"
  "filter (\<lambda>x. \<not> is_space x) (js '' Hi,  you'') = js ''Hi,you''"
  "js ''Hi,'' @ js ''you'' = js ''Hi,you''"
  "algorithmicChunker (js ''  '') = Some []"
  "list_all is_space (js ''  '')"
  by code_simp+

text \<open>
  C1.  For every text the tokenizer returns a chunk sequence.  Every chunk is a non-empty
  slice \<open>[start, end)\<close> of the text, of kind word, with its focal index; the slices,
  concatenated in order, are exactly the non-whitespace code units of the text in their
  order; each chunk ends at or before the start of the next, so no two overlap and the start
  offsets increase strictly.  A text of whitespace only, the empty one included, gives the
  empty sequence.
\<close>

theorem tokenizer_covers_non_whitespace:
  "\<exists>cs. algorithmicChunker t = Some cs \<and>
     concat (map (\<lambda>c. slice t (start c) (end' c)) cs) = filter (\<lambda>x. \<not> is_space x) t \<and>
     (\<forall>c \<in> set cs. start c < end' c \<and> end' c \<le> length t \<and>
        text' c = slice t (start c) (end' c) \<and> kind c = Word \<and>
        focalIndex c = calculateFocalIndex (text' c)) \<and>
     sorted_wrt (\<lambda>a b. end' a \<le> start b) cs \<and>
     sorted_wrt (<) (map start cs) \<and>
     ((\<forall>x \<in> set t. is_space x) \<longrightarrow> cs = [])"
proof -
  define f where "f = (\<lambda>(index, e, c :: capture).
      let token = slice t index e
      in \<lparr>text' = token, start = index, end' = index + length token, kind = Word,
          focalIndex = calculateFocalIndex token\<rparr>)"
  have "\<exists>ms. exec_all chunker_regex t 0 = Some ms \<and> all_matches chunker_regex t 0 ms"
  proof (rule exec_all_total)
    fix s e c
    assume "s \<le> length t" "(e, c) \<in> set (rmatch chunker_regex t (s, None))"
    from chunker_match [OF this(2,1)] show "s < e" by simp
  qed
  then obtain ms where
    ms: "exec_all chunker_regex t 0 = Some ms" and am: "all_matches chunker_regex t 0 ms"
    by blast
  from chunker_matches [OF am] have
    cover: "concat (map (\<lambda>(s, e, c). slice t s e) ms) = filter (\<lambda>x. \<not> is_space x) t"
    and bounds: "\<forall>(s, e, c) \<in> set ms. s < e \<and> e \<le> length t"
    and order: "sorted_wrt (\<lambda>a b. fst (snd a) \<le> fst b) ms" by auto
  have fm: "f m = \<lparr>text' = slice t (fst m) (fst (snd m)), start = fst m, end' = fst (snd m),
      kind = Word, focalIndex = calculateFocalIndex (slice t (fst m) (fst (snd m)))\<rparr>"
    if "m \<in> set ms" for m
  proof -
    obtain s e c where m: "m = (s, e, c)" by (cases m)
    with that bounds have "s < e" "e \<le> length t" by auto
    then have "length (slice t s e) = e - s" by (simp add: slice_def)
    with \<open>s < e\<close> show ?thesis by (simp add: f_def m Let_def)
  qed
  have res: "algorithmicChunker t = Some (map f ms)"
    by (simp add: algorithmicChunker_def ms f_def)
  have p1: "concat (map (\<lambda>c. slice t (start c) (end' c)) (map f ms)) =
      filter (\<lambda>x. \<not> is_space x) t"
  proof -
    have "map (\<lambda>c. slice t (start c) (end' c)) (map f ms) = map (\<lambda>(s, e, c). slice t s e) ms"
      unfolding map_map by (rule map_cong) (auto simp: fm)
    with cover show ?thesis by (simp only:)
  qed
  have p2: "\<forall>c \<in> set (map f ms). start c < end' c \<and> end' c \<le> length t \<and>
        text' c = slice t (start c) (end' c) \<and> kind c = Word \<and>
        focalIndex c = calculateFocalIndex (text' c)"
    using bounds by (auto simp: fm)
  have p3: "sorted_wrt (\<lambda>a b. end' a \<le> start b) (map f ms)"
    unfolding sorted_wrt_map
    by (rule sorted_wrt_mono_rel [OF _ order]) (simp add: fm)
  have p4: "sorted_wrt (<) (map start (map f ms))"
  proof -
    have "sorted_wrt (\<lambda>a b. start (f a) < start (f b)) ms"
    proof (rule sorted_wrt_mono_rel [OF _ order])
      fix a b assume ab: "a \<in> set ms" "b \<in> set ms" "fst (snd a) \<le> fst b"
      from ab(1) bounds have "fst a < fst (snd a)" by auto
      with ab show "start (f a) < start (f b)" by (simp add: fm)
    qed
    then show ?thesis by (simp add: sorted_wrt_map)
  qed
  have p5: "map f ms = []" if "\<forall>x \<in> set t. is_space x"
  proof (cases ms)
    case Nil
    then show ?thesis by simp
  next
    case (Cons m ms')
    obtain s e c where m: "m = (s, e, c)" by (cases m)
    from that have "filter (\<lambda>x. \<not> is_space x) t = []" by (simp add: filter_empty_conv)
    with cover Cons m have "slice t s e = []" by simp
    moreover from bounds Cons m have "s < e" "e \<le> length t" by auto
    ultimately show ?thesis by (simp add: slice_def)
  qed
  from res p1 p2 p3 p4 p5 show ?thesis by blast
qed

theorem tokenizer_covers_non_whitespace_witness:
  "algorithmicChunker (js '' Hi,  you'') =
     Some [\<lparr>text' = js ''Hi,'', start = 1, end' = 4, kind = Word, focalIndex = 1\<rparr>,
           \<lparr>text' = js ''you'', start = 6, end' = 9, kind = Word, focalIndex = 1\<rparr>] \<and>
   slice (js '' Hi,  you'') 1 4 @ slice (js '' Hi,  you'') 6 9 =
     filter (\<lambda>x. \<not> is_space x) (js '' Hi,  you'') \<and>
   list_all is_space (js ''  '') \<and> algorithmicChunker (js ''  '') = Some []"
proof -
  have ws: "\<forall>x \<in> set (js ''  ''). is_space x"
    using chunker_example(5) by (simp only: list_all_iff)
  from tokenizer_covers_non_whitespace [of "js '' Hi,  you''"] obtain cs where
    cs: "algorithmicChunker (js '' Hi,  you'') = Some cs"
      "concat (map (\<lambda>c. slice (js '' Hi,  you'') (start c) (end' c)) cs) =
        filter (\<lambda>x. \<not> is_space x) (js '' Hi,  you'')"
    by blast
  from cs(1) have "cs =
     [\<lparr>text' = js ''Hi,'', start = 1, end' = 4, kind = Word, focalIndex = 1\<rparr>,
      \<lparr>text' = js ''you'', start = 6, end' = 9, kind = Word, focalIndex = 1\<rparr>]"
    by (simp only: chunker_example(1) option.inject)
  with cs(2) have sl: "slice (js '' Hi,  you'') 1 4 @ slice (js '' Hi,  you'') 6 9 =
      filter (\<lambda>x. \<not> is_space x) (js '' Hi,  you'')"
    by (simp only: list.map concat.simps Chunk.select_convs append_Nil2)
  from tokenizer_covers_non_whitespace [of "js ''  ''"] ws
  have em: "algorithmicChunker (js ''  '') = Some []" by blast
  from sl em show ?thesis by (simp only: chunker_example(1,5) simp_thms)
qed

section \<open>Chapter extractor\<close>

lemma rmatch_min_len:
  "(q, c') \<in> set (rmatch r t (p, c)) \<Longrightarrow> p + min_len r \<le> q"
proof (induction r arbitrary: p c q c')
  case (Seq a b)
  from Seq.prems obtain m cm where m: "(m, cm) \<in> set (rmatch a t (p, c))"
    and q: "(q, c') \<in> set (rmatch b t (m, cm))" by auto
  from Seq.IH(1) [OF m] Seq.IH(2) [OF q] show ?case by simp
next
  case (Alt a b)
  then show ?case by (auto simp: min_def dest: Alt.IH)
next
  case (Rep g n cls)
  from Rep.prems [unfolded rmatch_Rep_set] show ?case by auto
next
  case (Group r)
  then show ?case by fastforce
qed (auto split: if_splits)

lemma rmatch_keeps_capture:
  "(q, c') \<in> set (rmatch r t (p, c)) \<Longrightarrow> c \<noteq> None \<Longrightarrow> c' \<noteq> None"
proof (induction r arbitrary: p c q c')
  case (Seq a b)
  from Seq.prems(1) obtain m cm where m: "(m, cm) \<in> set (rmatch a t (p, c))"
    and q: "(q, c') \<in> set (rmatch b t (m, cm))" by auto
  from Seq.IH(2) [OF q Seq.IH(1) [OF m Seq.prems(2)]] show ?case .
next
  case (Rep g n cls)
  from Rep.prems(1) [unfolded rmatch_Rep_set] Rep.prems(2) show ?case by auto
next
  case (Group r)
  then show ?case by auto
qed (auto split: if_splits)

lemma rmatch_sets_group:
  "(q, c') \<in> set (rmatch r t (p, c)) \<Longrightarrow> sets_group r \<Longrightarrow> c' \<noteq> None"
proof (induction r arbitrary: p c q c')
  case (Seq a b)
  from Seq.prems(1) obtain m cm where m: "(m, cm) \<in> set (rmatch a t (p, c))"
    and q: "(q, c') \<in> set (rmatch b t (m, cm))" by auto
  show ?case
  proof (cases "sets_group b")
    case True
    from Seq.IH(2) [OF q True] show ?thesis .
  next
    case False
    with Seq.prems(2) have "sets_group a" by simp
    from rmatch_keeps_capture [OF q Seq.IH(1) [OF m this]] show ?thesis .
  qed
next
  case (Alt a b)
  then show ?case by auto
next
  case (Group r)
  then show ?case by auto
qed simp_all

lemma chapter_regex_measures: "min_len chapter_regex = 6" "sets_group chapter_regex"
  by code_simp+

lemma chapter_match:
  assumes "(e, c) \<in> set (rmatch chapter_regex t (s, None))"
  shows "s < e" and "c \<noteq> None"
  using rmatch_min_len [OF assms] rmatch_sets_group [OF assms] chapter_regex_measures
  by simp_all

lemma all_matches_mem:
  "all_matches r t i ms \<Longrightarrow> \<forall>(s, e, c) \<in> set ms. (e, c) \<in> set (rmatch r t (s, None))"
  by (induction rule: all_matches.induct) auto



lemma collect_spec:
  "\<forall>(s, e, c) \<in> set ms. c \<noteq> None \<Longrightarrow>
     collect t cs acc ms =
       Some (if acc = [] then dedup_first (candidates t cs ms)
             else butlast acc @ dedup_first (last acc # candidates t cs ms))"
proof (induction ms arbitrary: acc)
  case Nil
  show ?case by simp
next
  case (Cons m ms)
  obtain s e c where m: "m = (s, e, c)" by (cases m)
  with Cons.prems obtain a b where c: "c = Some (a, b)" by auto
  from Cons.prems have rest: "\<forall>(s, e, c) \<in> set ms. c \<noteq> None" by simp
  note IH = Cons.IH [OF rest]
  show ?case
  proof (cases "findIndex (\<lambda>k. s \<le> start k) cs")
    case None
    then show ?thesis by (simp add: m c IH)
  next
    case (Some idx)
    define ch where "ch = \<lparr>title = (if length (trim (slice t a b)) > 50
                      then take 50 (trim (slice t a b)) @ js ''...''
                      else trim (slice t a b)), chunkIndex = idx\<rparr>"
    have cand: "candidates t cs (m # ms) = ch # candidates t cs ms"
      by (simp add: m c Some ch_def)
    have idx: "chunkIndex ch = idx" by (simp add: ch_def)
    show ?thesis
    proof (cases "acc = [] \<or> chunkIndex (last acc) \<noteq> idx")
      case True
      then have "collect t cs acc (m # ms) = collect t cs (acc @ [ch]) ms"
        by (simp add: m c Some ch_def Let_def)
      then have step: "collect t cs acc (m # ms) = Some (acc @ dedup_first (ch # candidates t cs ms))"
        by (simp add: IH)
      show ?thesis
      proof (cases "acc = []")
        case True
        with step show ?thesis by (simp add: cand)
      next
        case False
        with True have "chunkIndex (last acc) \<noteq> chunkIndex ch" by (simp add: idx)
        then have "dedup_first (last acc # ch # candidates t cs ms) =
            last acc # dedup_first (ch # candidates t cs ms)" by simp
        with False step show ?thesis by (simp add: cand)
      qed
    next
      case False
      then have acc: "acc \<noteq> []" and eq: "chunkIndex (last acc) = chunkIndex ch"
        by (simp_all add: idx)
      from False have step: "collect t cs acc (m # ms) = collect t cs acc ms"
        by (simp add: m c Some Let_def)
      from eq have "dedup_first (last acc # ch # candidates t cs ms) =
          dedup_first (last acc # candidates t cs ms)" by simp
      with acc show ?thesis by (simp add: step IH cand)
    qed
  qed
qed


lemma findIndex_None: "findIndex p xs = None \<longleftrightarrow> (\<forall>x \<in> set xs. \<not> p x)"
  by (induction xs) auto





lemma dedup_first_Nil: "dedup_first xs = [] \<longleftrightarrow> xs = []"
  by (induction xs rule: dedup_first.induct) auto


lemma candidates_Nil:
  "\<forall>m \<in> set ms. \<forall>c \<in> set cs. start c < fst m \<Longrightarrow> candidates t cs ms = []"
proof (induction ms)
  case Nil
  show ?case by simp
next
  case (Cons m ms)
  obtain s e c where m: "m = (s, e, c)" by (cases m)
  from Cons.prems have "\<forall>k \<in> set cs. \<not> s \<le> start k" by (auto simp: m)
  then have "findIndex (\<lambda>k. s \<le> start k) cs = None" by (simp add: findIndex_None)
  with Cons show ?case by (simp add: m split: option.splits prod.splits)
qed

lemma extract_spec:
  "\<exists>ms. exec_all chapter_regex t 0 = Some ms \<and> all_matches chapter_regex t 0 ms \<and>
     extractChapters t cs =
       Some (if candidates t cs ms = [] then [\<lparr>title = js ''Start of Text'', chunkIndex = 0\<rparr>]
             else dedup_first (candidates t cs ms))"
proof -
  have "\<exists>ms. exec_all chapter_regex t 0 = Some ms \<and> all_matches chapter_regex t 0 ms"
  proof (rule exec_all_total)
    fix s e c
    assume "(e, c) \<in> set (rmatch chapter_regex t (s, None))"
    then show "s < e" by (rule chapter_match(1))
  qed
  then obtain ms where ms: "exec_all chapter_regex t 0 = Some ms"
    and am: "all_matches chapter_regex t 0 ms" by blast
  have "\<forall>(s, e, c) \<in> set ms. c \<noteq> None"
  proof (clarify)
    fix s e c assume "(s, e, c) \<in> set ms"
    with all_matches_mem [OF am] have "(e, c) \<in> set (rmatch chapter_regex t (s, None))" by auto
    from chapter_match(2) [OF this] show "\<exists>y. c = Some y" by auto
  qed
  from collect_spec [OF this, of t cs "[]"]
  have "collect t cs [] ms = Some (dedup_first (candidates t cs ms))" by simp
  with ms have "extractChapters t cs =
       Some (if candidates t cs ms = [] then [\<lparr>title = js ''Start of Text'', chunkIndex = 0\<rparr>]
             else dedup_first (candidates t cs ms))"
    by (simp add: extractChapters_def dedup_first_Nil)
  with ms am show ?thesis by blast
qed


lemma chapter_examples:
  "exec_all chapter_regex (js ''Part I\<newline>Part II\<newline>the end'') 0 =
     Some [(0, 7, Some (0, 6)), (7, 15, Some (7, 14))]"
  "dedup_first [\<lparr>title = js ''Part I'', chunkIndex = 0\<rparr>, \<lparr>title = js ''Part II'', chunkIndex = 0\<rparr>] =
     [\<lparr>title = js ''Part I'', chunkIndex = 0\<rparr>]"
  "candidates (js ''Part I\<newline>Part II\<newline>the end'')
     [\<lparr>text' = js ''the'', start = 15, end' = 18, kind = Word, focalIndex = 1\<rparr>,
      \<lparr>text' = js ''end'', start = 19, end' = 22, kind = Word, focalIndex = 1\<rparr>]
     [(0, 7, Some (0, 6)), (7, 15, Some (7, 14))] =
     [\<lparr>title = js ''Part I'', chunkIndex = 0\<rparr>, \<lparr>title = js ''Part II'', chunkIndex = 0\<rparr>]"
  "\<not> heading_like (js ''Hello world'')"
  "exec_all chapter_regex (js ''Hi\<newline>Part I\<newline>x'') 0 = Some [(2, 10, Some (3, 9))]"
  "heading_like (js ''Hi\<newline>Part I\<newline>x'')"
  by code_simp+



text \<open>
  C10.  With an empty chunk sequence, and more generally whenever no chunk starts at or
  after the offset of any match of the heading pattern, every match is discarded and the
  extractor returns exactly the default marker, also for a text with heading-like lines.
\<close>

theorem chapters_default_without_chunk:
  "extractChapters t [] = Some [\<lparr>title = js ''Start of Text'', chunkIndex = 0\<rparr>] \<and>
   (exec_all chapter_regex t 0 = Some ms \<and> (\<forall>m \<in> set ms. \<forall>c \<in> set cs. start c < fst m) \<longrightarrow>
      extractChapters t cs = Some [\<lparr>title = js ''Start of Text'', chunkIndex = 0\<rparr>])"
proof -
  have general: "extractChapters t cs' = Some [\<lparr>title = js ''Start of Text'', chunkIndex = 0\<rparr>]"
    if "exec_all chapter_regex t 0 = Some ms'" "\<forall>m \<in> set ms'. \<forall>c \<in> set cs'. start c < fst m"
    for ms' cs'
  proof -
    from extract_spec [of t cs'] that(1) have "extractChapters t cs' =
       Some (if candidates t cs' ms' = [] then [\<lparr>title = js ''Start of Text'', chunkIndex = 0\<rparr>]
             else dedup_first (candidates t cs' ms'))" by auto
    with candidates_Nil [OF that(2)] show ?thesis by simp
  qed
  from extract_spec [of t "[]"] obtain ms0 where "exec_all chapter_regex t 0 = Some ms0" by blast
  from general [OF this] have "extractChapters t [] = Some [\<lparr>title = js ''Start of Text'', chunkIndex = 0\<rparr>]"
    by simp
  with general [of ms cs] show ?thesis by blast
qed

theorem chapters_default_without_chunk_witness:
  "heading_like (js ''Hi\<newline>Part I\<newline>x'') \<and>
   extractChapters (js ''Hi\<newline>Part I\<newline>x'') [] = Some [\<lparr>title = js ''Start of Text'', chunkIndex = 0\<rparr>] \<and>
   extractChapters (js ''Hi\<newline>Part I\<newline>x'')
     [\<lparr>text' = js ''Hi'', start = 0, end' = 2, kind = Word, focalIndex = 0\<rparr>] =
     Some [\<lparr>title = js ''Start of Text'', chunkIndex = 0\<rparr>]"
  using chapters_default_without_chunk [of "js ''Hi\<newline>Part I\<newline>x''" "[(2, 10, Some (3, 9))]"
      "[\<lparr>text' = js ''Hi'', start = 0, end' = 2, kind = Word, focalIndex = 0\<rparr>]"]
  by (simp add: chapter_examples(5,6))

section \<open>Rounding to binary64: error bound and monotonicity\<close>

lemma pow2_powi: "pow2 e = 2 powi e"
  by (simp add: pow2_def power_int_def power_inverse inverse_eq_divide power_one_over)

lemma pow2_pos: "0 < pow2 e"
  by (simp add: pow2_powi)

lemma pow2_add: "pow2 (a + b) = pow2 a * pow2 b"
  by (simp add: pow2_powi power_int_add)

lemma pow2_mono: "a \<le> b \<Longrightarrow> pow2 a \<le> pow2 b"
  by (simp add: pow2_powi power_int_increasing)

lemma pow2_nat: "0 \<le> e \<Longrightarrow> pow2 e = 2 ^ nat e"
  by (simp add: pow2_def)

lemma pow2_Suc: "pow2 (e + 1) = 2 * pow2 e"
  by (simp add: pow2_powi power_int_add_1')

lemma binade_bounds:
  assumes "0 < x"
  shows "pow2 (binade x) \<le> x \<and> x < pow2 (binade x + 1)"
proof -
  obtain a b where q: "quotient_of x = (a, b)" by (cases "quotient_of x")
  then have b: "0 < b" and x: "x = of_int a / of_int b"
    by (simp_all add: quotient_of_denom_pos quotient_of_div)
  with assms have a: "0 < a" by (simp add: zero_less_divide_iff)
  define la lb where "la = bitlen a" and "lb = bitlen b"
  from a b have la: "1 \<le> la" and lb: "1 \<le> lb"
    by (simp_all add: la_def lb_def bitlen_alt_def)
  from bitlen_bounds [OF a] la have "2 ^ nat (la - 1) \<le> a" "a < 2 ^ nat la"
    by (simp_all add: la_def)
  then have "(of_int (2 ^ nat (la - 1)) :: rat) \<le> of_int a" "(of_int a :: rat) < of_int (2 ^ nat la)"
    by (simp_all only: of_int_le_iff of_int_less_iff)
  with la have a1: "pow2 (la - 1) \<le> of_int a" and a2: "of_int a < pow2 la"
    by (simp_all add: pow2_nat)
  from bitlen_bounds [OF b] lb have "2 ^ nat (lb - 1) \<le> b" "b < 2 ^ nat lb"
    by (simp_all add: lb_def)
  then have "(of_int (2 ^ nat (lb - 1)) :: rat) \<le> of_int b" "(of_int b :: rat) < of_int (2 ^ nat lb)"
    by (simp_all only: of_int_le_iff of_int_less_iff)
  with lb have b1: "pow2 (lb - 1) \<le> of_int b" and b2: "of_int b < pow2 lb"
    by (simp_all add: pow2_nat)
  have bpos: "(0::rat) < of_int b" using b by simp
  have lo: "pow2 (la - lb - 1) < x"
  proof -
    have "pow2 (la - lb - 1) * of_int b < pow2 (la - lb - 1) * pow2 lb"
      using b2 pow2_pos by (simp add: mult_strict_left_mono)
    also have "\<dots> = pow2 (la - 1)" by (simp add: pow2_add [symmetric])
    also have "\<dots> \<le> of_int a" by (rule a1)
    finally show ?thesis using bpos by (simp add: x pos_less_divide_eq)
  qed
  have hi: "x < pow2 (la - lb + 1)"
  proof -
    have "of_int a < pow2 la" by (rule a2)
    also have "\<dots> = pow2 (la - lb + 1) * pow2 (lb - 1)" by (simp add: pow2_add [symmetric])
    also have "\<dots> \<le> pow2 (la - lb + 1) * of_int b"
      using b1 pow2_pos [of "la - lb + 1"] by (simp add: mult_left_mono)
    finally show ?thesis using bpos by (simp add: x pos_divide_less_eq)
  qed
  show ?thesis
  proof (cases "pow2 (la - lb) \<le> x")
    case True
    with q hi show ?thesis by (simp add: binade_def la_def lb_def)
  next
    case False
    with q lo show ?thesis by (simp add: binade_def la_def lb_def)
  qed
qed

lemma binade_unique:
  assumes "pow2 e \<le> x" and "x < pow2 (e + 1)"
  shows "binade x = e"
proof -
  from assms(1) pow2_pos [of e] have "0 < x" by simp
  from binade_bounds [OF this] have b: "pow2 (binade x) \<le> x" "x < pow2 (binade x + 1)" by simp_all
  have "pow2 e < pow2 (binade x + 1)" using assms(1) b(2) by simp
  then have "e < binade x + 1" using pow2_mono [of "binade x + 1" e] by (cases "e < binade x + 1") auto
  moreover have "pow2 (binade x) < pow2 (e + 1)" using assms(2) b(1) by simp
  then have "binade x < e + 1" using pow2_mono [of "e + 1" "binade x"] by (cases "binade x < e + 1") auto
  ultimately show ?thesis by simp
qed

lemma round_half_even_bounds:
  "of_int (round_half_even q) \<le> q + 1 / 2 \<and> q - 1 / 2 \<le> of_int (round_half_even q)"
proof -
  define f where "f = \<lfloor>q\<rfloor>"
  have f: "of_int f \<le> q" "q < of_int f + 1" unfolding f_def by linarith+
  have "round_half_even q = f \<and> q - of_int f \<le> 1 / 2 \<or>
        round_half_even q = f + 1 \<and> 1 / 2 \<le> q - of_int f"
    unfolding round_half_even_def Let_def f_def [symmetric] by auto
  with f show ?thesis by auto
qed

lemma round_half_even_of_int: "round_half_even (of_int n) = n"
  by (simp add: round_half_even_def)

lemma round_half_even_mono:
  assumes "q \<le> q'"
  shows "round_half_even q \<le> round_half_even q'"
proof (cases "\<lfloor>q\<rfloor> = \<lfloor>q'\<rfloor>")
  case True
  with assms show ?thesis by (auto simp: round_half_even_def Let_def)
next
  case False
  with assms have "\<lfloor>q\<rfloor> + 1 \<le> \<lfloor>q'\<rfloor>" using floor_mono [OF assms] by linarith
  moreover have "round_half_even q \<le> \<lfloor>q\<rfloor> + 1" by (auto simp: round_half_even_def Let_def)
  moreover have "\<lfloor>q'\<rfloor> \<le> round_half_even q'" by (auto simp: round_half_even_def Let_def)
  ultimately show ?thesis by linarith
qed


lemma pow2_52: "pow2 (e - 52) * 4503599627370496 = pow2 e"
proof -
  have "pow2 e = pow2 ((e - 52) + 52)" by simp
  also have "\<dots> = pow2 (e - 52) * pow2 52" by (simp only: pow2_add)
  finally show ?thesis by (simp add: pow2_def)
qed

lemma fl_pos_eq: "0 < x \<Longrightarrow> fl x = fl_pos x"
  by (simp add: fl_def)

lemma fl_error:
  assumes "0 < x"
  shows "\<bar>fl x - x\<bar> \<le> x / 9007199254740992"
proof -
  define u where "u = pow2 (binade x - 52)"
  have u: "0 < u" by (simp add: u_def pow2_pos)
  have ux: "u * 4503599627370496 \<le> x"
    using binade_bounds [OF assms] pow2_52 [of "binade x"] by (simp add: u_def)
  define m where "m = round_half_even (x / u)"
  have fl: "fl x = of_int m * u"
    using assms by (simp add: fl_pos_eq fl_pos_def Let_def u_def m_def)
  have "\<bar>of_int m - x / u\<bar> \<le> 1 / 2"
    using round_half_even_bounds [of "x / u"] unfolding m_def by linarith
  then have "\<bar>of_int m - x / u\<bar> * u \<le> 1 / 2 * u"
    using u by (simp only: mult_right_mono less_imp_le)
  moreover have "\<bar>of_int m - x / u\<bar> * u = \<bar>(of_int m - x / u) * u\<bar>"
    using u by (simp add: abs_mult)
  moreover have "(of_int m - x / u) * u = of_int m * u - x"
    using u by (simp add: left_diff_distrib)
  ultimately have "\<bar>fl x - x\<bar> \<le> u / 2" by (simp add: fl)
  also have "\<dots> \<le> x / 9007199254740992" using ux by simp
  finally show ?thesis .
qed

lemma fl_binade:
  assumes "0 < x"
  shows "pow2 (binade x) \<le> fl x \<and> fl x \<le> pow2 (binade x + 1)"
proof -
  define u where "u = pow2 (binade x - 52)"
  have u: "0 < u" by (simp add: u_def pow2_pos)
  have ue: "pow2 (binade x) = u * 4503599627370496" by (simp add: u_def pow2_52)
  from binade_bounds [OF assms] have "u * 4503599627370496 \<le> x" "x < u * 9007199254740992"
    by (simp_all add: ue pow2_Suc)
  with u have q: "of_int 4503599627370496 \<le> x / u" "x / u \<le> of_int 9007199254740992"
    by (simp_all add: pos_le_divide_eq pos_divide_le_eq mult.commute)
  define m where "m = round_half_even (x / u)"
  have fl: "fl x = of_int m * u"
    using assms by (simp add: fl_pos_eq fl_pos_def Let_def u_def m_def)
  from round_half_even_mono [OF q(1)] round_half_even_mono [OF q(2)]
  have "4503599627370496 \<le> m" "m \<le> 9007199254740992"
    by (simp_all only: round_half_even_of_int m_def)
  then have "(of_int 4503599627370496 :: rat) \<le> of_int m" "(of_int m :: rat) \<le> of_int 9007199254740992"
    by (simp_all only: of_int_le_iff)
  then have "4503599627370496 * u \<le> of_int m * u" "of_int m * u \<le> 9007199254740992 * u"
    using u by (simp_all add: mult_right_mono)
  then show ?thesis by (simp add: fl ue pow2_Suc mult.commute)
qed

lemma fl_positive: "0 < x \<Longrightarrow> 0 < fl x"
  using fl_binade [of x] pow2_pos [of "binade x"] by simp

lemma fl_mono:
  assumes "0 < x" and "x \<le> y"
  shows "fl x \<le> fl y"
proof -
  from assms have y: "0 < y" by simp
  note bx = binade_bounds [OF assms(1)] and by' = binade_bounds [OF y]
  have "pow2 (binade x) < pow2 (binade y + 1)" using bx by' assms(2) by simp
  then have le: "binade x \<le> binade y"
    using pow2_mono [of "binade y + 1" "binade x"] by (cases "binade x \<le> binade y") auto
  show ?thesis
  proof (cases "binade x = binade y")
    case True
    define u where "u = pow2 (binade x - 52)"
    have u: "0 < u" by (simp add: u_def pow2_pos)
    from assms(2) u have "x / u \<le> y / u" by (simp add: divide_right_mono)
    from round_half_even_mono [OF this]
    have "(of_int (round_half_even (x / u)) :: rat) \<le> of_int (round_half_even (y / u))"
      by (simp only: of_int_le_iff)
    then have "of_int (round_half_even (x / u)) * u \<le> of_int (round_half_even (y / u)) * u"
      using u by (simp add: mult_right_mono)
    then show ?thesis
      using assms(1) y True by (simp add: fl_pos_eq fl_pos_def Let_def u_def)
  next
    case False
    with le have "binade x + 1 \<le> binade y" by simp
    from pow2_mono [OF this] fl_binade [OF assms(1)] fl_binade [OF y]
    show ?thesis by simp
  qed
qed

section \<open>Delay calculator\<close>

lemma fl_constants:
  "fl (7 / 20) = 3152519739159347 / 9007199254740992"
  "fl (13 / 10) = 5854679515581645 / 4503599627370496"
  "fl (9 / 10) = 8106479329266893 / 9007199254740992"
  "fl (17 / 20) = 7656119366529843 / 9007199254740992"
  by code_simp+

lemma base_100_300: "fdiv 60000 100 = 600" "fdiv 60000 300 = 200"
  by code_simp+

lemma ground_200_600:
  "fmul 200 (fl (13 / 10)) + 1 \<le> fmul 600 (fl (13 / 10))"
  "fmul 200 (fl (9 / 10)) + 1 \<le> fmul 600 (fl (9 / 10))"
  "fadd 200 300 + 1 \<le> fadd 600 300"
  "fadd (fmul 200 (fl (13 / 10))) 300 + 1 \<le> fadd (fmul 600 (fl (13 / 10))) 300"
  "fadd (fmul 200 (fl (9 / 10))) 300 + 1 \<le> fadd (fmul 600 (fl (9 / 10))) 300"
  "fdiv 200 (fl (9 / 10)) + 1 \<le> fdiv 600 (fl (9 / 10))"
  by code_simp+

lemma ground_floor:
  "fl (60000 / 108000) = 2501999792983609 / 4503599627370496"
  "fmul (2501999792983609 / 4503599627370496) (fl (9 / 10)) = 1 / 2"
  "1 / 2 \<le> fmul (2501999792983609 / 4503599627370496) (fl (13 / 10))"
  "1 / 2 \<le> fdiv (2501999792983609 / 4503599627370496) (fl (9 / 10))"
  "1 / 2 \<le> fmul (2501999792983609 / 4503599627370496) (fmul 2 (fl (17 / 20)))"
  "fl 300 = 300"
  by code_simp+


inductive stage2 :: "(rat \<Rightarrow> rat) \<Rightarrow> bool" where
  plain: "stage2 (\<lambda>b. b)"
| long: "stage2 (\<lambda>b. fmul b (fl (13 / 10)))"
| short: "stage2 (\<lambda>b. fmul b (fl (9 / 10)))"
| phrase: "1 < wc \<Longrightarrow> stage2 (\<lambda>b. fmul b (fmul (of_nat wc) (fl (17 / 20))))"

inductive stage3 :: "(rat \<Rightarrow> rat) \<Rightarrow> bool" where
  keep: "stage2 g \<Longrightarrow> stage3 g"
| sentence: "stage2 g \<Longrightarrow> stage3 (\<lambda>b. fadd (g b) 300)"
| clause: "stage3 (\<lambda>b. fdiv b (fl (9 / 10)))"

lemma delay_stage2:
  "stage2 (\<lambda>b.
     if kind c = Phrase \<or> kind c = Idiom
     then (if 1 < length (split_ws [] (trim (text' c)))
           then fmul b (fmul (of_nat (length (split_ws [] (trim (text' c))))) (fl (17 / 20)))
           else if 10 < length (trim (text' c)) then fmul b (fl (13 / 10))
           else if length (trim (text' c)) < 3 then fmul b (fl (9 / 10)) else b)
     else if 10 < length (trim (text' c)) then fmul b (fl (13 / 10))
     else if length (trim (text' c)) < 3 then fmul b (fl (9 / 10)) else b)"
  by (cases "kind c = Phrase \<or> kind c = Idiom";
      cases "1 < length (split_ws [] (trim (text' c)))";
      cases "10 < length (trim (text' c))";
      cases "length (trim (text' c)) < 3")
     (simp_all add: stage2.intros)

lemma punct_cases:
  "(if E then (if S then X else if C then Y else G) else G) =
   (if E \<and> S then X else if E \<and> C then Y else G)"
  by simp

lemma delay_shape:
  "\<exists>f. stage3 f \<and> (\<forall>wpm. calculateChunkDelay c wpm = Math_round (f (fdiv 60000 wpm)))"
proof -
  let ?g = "\<lambda>b.
     if kind c = Phrase \<or> kind c = Idiom
     then (if 1 < length (split_ws [] (trim (text' c)))
           then fmul b (fmul (of_nat (length (split_ws [] (trim (text' c))))) (fl (17 / 20)))
           else if 10 < length (trim (text' c)) then fmul b (fl (13 / 10))
           else if length (trim (text' c)) < 3 then fmul b (fl (9 / 10)) else b)
     else if 10 < length (trim (text' c)) then fmul b (fl (13 / 10))
     else if length (trim (text' c)) < 3 then fmul b (fl (9 / 10)) else b"
  let ?token = "trim (text' c)"
  let ?lastChar = "if ?token = [] then [] else [last ?token]"
  let ?E = "\<not> isAcronym ?token \<and> \<not> isAbbreviation ?token \<and> \<not> isNumericComma ?token"
  let ?S = "?lastChar \<in> set [js ''.'', js ''!'', js ''?'']"
  let ?C = "?lastChar \<in> set [js '','', js '';'', js '':'']"
  have g: "stage2 ?g" by (rule delay_stage2)
  have eq: "calculateChunkDelay c wpm =
      Math_round (if ?E \<and> ?S then fadd (?g (fdiv 60000 wpm)) 300
                  else if ?E \<and> ?C then fdiv (fdiv 60000 wpm) (fl (9 / 10))
                  else ?g (fdiv 60000 wpm))" for wpm
    by (simp only: calculateChunkDelay_def Let_def punct_cases)
  consider (sent) "?E \<and> ?S" | (cl) "\<not> (?E \<and> ?S)" "?E \<and> ?C" | (quiet) "\<not> (?E \<and> ?S)" "\<not> (?E \<and> ?C)"
    by blast
  then show ?thesis
  proof cases
    case sent
    then have "(?E \<and> ?S) = True" by blast
    then have "\<forall>wpm. calculateChunkDelay c wpm = Math_round (fadd (?g (fdiv 60000 wpm)) 300)"
      by (simp only: eq if_True simp_thms)
    with stage3.sentence [OF g] show ?thesis by blast
  next
    case cl
    then have "(?E \<and> ?S) = False" "(?E \<and> ?C) = True" by blast+
    then have "\<forall>wpm. calculateChunkDelay c wpm = Math_round (fdiv (fdiv 60000 wpm) (fl (9 / 10)))"
      by (simp only: eq if_True if_False simp_thms)
    with stage3.clause show ?thesis by blast
  next
    case quiet
    then have "(?E \<and> ?S) = False" "(?E \<and> ?C) = False" by blast+
    then have "\<forall>wpm. calculateChunkDelay c wpm = Math_round (?g (fdiv 60000 wpm))"
      by (simp only: eq if_False simp_thms)
    with stage3.keep [OF g] show ?thesis by blast
  qed
qed

lemma Math_round_gap: "a + 1 \<le> b \<Longrightarrow> Math_round a < Math_round b"
proof -
  assume "a + 1 \<le> b"
  then have "\<lfloor>a + 1 / 2\<rfloor> + 1 \<le> \<lfloor>b + 1 / 2\<rfloor>"
    by (metis (no_types) add.commute add.left_commute add_mono_thms_linordered_semiring(2) floor_add_int floor_mono of_int_1)
  then show ?thesis by (simp add: Math_round_def)
qed

lemma Math_round_pos: "1 / 2 \<le> d \<Longrightarrow> 1 \<le> Math_round d"
  by (simp add: Math_round_def le_floor_iff)

lemma fl_upper: "0 < x \<Longrightarrow> fl x \<le> x + x / 9007199254740992"
  using fl_error [of x] by linarith

lemma fl_lower: "0 < x \<Longrightarrow> x - x / 9007199254740992 \<le> fl x"
  using fl_error [of x] by linarith

lemma phrase_factor:
  assumes "1 < wc"
  shows "8 / 5 \<le> fmul (of_nat wc) (fl (17 / 20))"
proof -
  from assms have "(2::rat) \<le> of_nat wc" by simp
  then have z: "2 * (7656119366529843 / 9007199254740992) \<le> of_nat wc * (7656119366529843 / 9007199254740992 :: rat)"
    by (simp only: mult_right_mono)
  then have pos: "0 < of_nat wc * (7656119366529843 / 9007199254740992 :: rat)" by linarith
  from fl_lower [OF pos] z show ?thesis
    unfolding fmul_def fl_constants by linarith
qed

lemma phrase_gap:
  assumes "8 / 5 \<le> y"
  shows "fmul 200 y + 1 \<le> fmul 600 y" and "fadd (fmul 200 y) 300 + 1 \<le> fadd (fmul 600 y) 300"
proof -
  define A B where "A = fl (200 * y)" and "B = fl (600 * y)"
  from assms have p2: "0 < 200 * y" and p6: "0 < 600 * y" by simp_all
  from fl_upper [OF p2] assms have A: "A \<le> 201 * y" unfolding A_def by linarith
  from fl_lower [OF p6] assms have B: "599 * y \<le> B" unfolding B_def by linarith
  from fl_upper [OF p6] assms have B': "B \<le> 601 * y" unfolding B_def by linarith
  from fl_positive [OF p2] have A0: "0 < A" unfolding A_def .
  from A B assms show "fmul 200 y + 1 \<le> fmul 600 y"
    unfolding fmul_def A_def [symmetric] B_def [symmetric] by linarith
  from A0 have q2: "0 < A + 300" by simp
  from B assms have q6: "0 < B + 300" by linarith
  have "(A + 300) / 9007199254740992 \<le> y" using A assms by (simp add: pos_divide_le_eq)
  with fl_upper [OF q2] have S2: "fl (A + 300) \<le> A + 300 + y" by linarith
  have "(B + 300) / 9007199254740992 \<le> y" using B' assms by (simp add: pos_divide_le_eq)
  with fl_lower [OF q6] have S6: "B + 300 - y \<le> fl (B + 300)" by linarith
  from S2 S6 A B assms show "fadd (fmul 200 y) 300 + 1 \<le> fadd (fmul 600 y) 300"
    unfolding fmul_def fadd_def A_def [symmetric] B_def [symmetric] by linarith
qed

lemma stage2_gap:
  assumes "stage2 g"
  shows "g 200 + 1 \<le> g 600 \<and> fadd (g 200) 300 + 1 \<le> fadd (g 600) 300"
  using assms
proof cases
  case plain
  then show ?thesis using ground_200_600(3) by simp
next
  case long
  then show ?thesis using ground_200_600(1,4) by simp
next
  case short
  then show ?thesis using ground_200_600(2,5) by simp
next
  case (phrase wc)
  from phrase_gap [OF phrase_factor [OF phrase(2)]] phrase(1) show ?thesis by simp
qed

lemma stage3_gap:
  assumes "stage3 f"
  shows "f 200 + 1 \<le> f 600"
  using assms
proof cases
  case keep
  then show ?thesis using stage2_gap by simp
next
  case (sentence g)
  then show ?thesis using stage2_gap [of g] by simp
next
  case clause
  then show ?thesis using ground_200_600(6) by simp
qed

text \<open>
  C7.  For every chunk the delay at 100 words per minute is strictly larger than the delay at
  300 words per minute.
\<close>

theorem delay_slower_at_100_than_300:
  "calculateChunkDelay chunk 300 < calculateChunkDelay chunk 100"
proof -
  from delay_shape [of chunk] obtain f where f: "stage3 f"
    and eq: "\<And>wpm. calculateChunkDelay chunk wpm = Math_round (f (fdiv 60000 wpm))"
    by blast
  from Math_round_gap [OF stage3_gap [OF f]] show ?thesis
    by (simp add: eq base_100_300)
qed

theorem delay_slower_at_100_than_300_witness:
  "calculateChunkDelay \<lparr>text' = js ''New York City'', start = 0, end' = 13, kind = Phrase, focalIndex = 4\<rparr> 300
     < calculateChunkDelay \<lparr>text' = js ''New York City'', start = 0, end' = 13, kind = Phrase, focalIndex = 4\<rparr> 100"
  by (rule delay_slower_at_100_than_300)

lemma base_floor:
  assumes "0 < wpm" and "wpm \<le> 108000"
  shows "2501999792983609 / 4503599627370496 \<le> fdiv 60000 wpm"
proof -
  from assms have "60000 / 108000 \<le> 60000 / wpm"
    by (simp add: pos_le_divide_eq)
  from fl_mono [OF _ this] show ?thesis
    unfolding fdiv_def ground_floor(1) by simp
qed

lemma fmul_mono:
  assumes "0 < a" "a \<le> a'" "0 < b" "b \<le> b'"
  shows "fmul a b \<le> fmul a' b'"
proof -
  from assms have "a * b \<le> a' * b'" by (simp add: mult_mono less_imp_le)
  moreover from assms have "0 < a * b" by simp
  ultimately show ?thesis unfolding fmul_def by (rule fl_mono [rotated])
qed

lemma stage2_floor:
  assumes "stage2 g" and b: "2501999792983609 / 4503599627370496 \<le> b"
  shows "1 / 2 \<le> g b"
  using assms(1)
proof cases
  case plain
  with b show ?thesis by simp
next
  case long
  have "fmul (2501999792983609 / 4503599627370496) (fl (13 / 10)) \<le> fmul b (fl (13 / 10))"
    by (rule fmul_mono) (use b in \<open>simp_all add: fl_constants\<close>)
  with ground_floor(3) long show ?thesis by simp
next
  case short
  have "fmul (2501999792983609 / 4503599627370496) (fl (9 / 10)) \<le> fmul b (fl (9 / 10))"
    by (rule fmul_mono) (use b in \<open>simp_all add: fl_constants\<close>)
  with ground_floor(2) short show ?thesis by simp
next
  case (phrase wc)
  have y: "fmul 2 (fl (17 / 20)) \<le> fmul (of_nat wc) (fl (17 / 20))"
    by (rule fmul_mono) (use phrase(2) in \<open>simp_all add: fl_constants\<close>)
  have y0: "0 < fmul 2 (fl (17 / 20))"
    unfolding fmul_def by (rule fl_positive) (simp add: fl_constants)
  have "fmul (2501999792983609 / 4503599627370496) (fmul 2 (fl (17 / 20)))
      \<le> fmul b (fmul (of_nat wc) (fl (17 / 20)))"
    by (rule fmul_mono) (use b y y0 in simp_all)
  with ground_floor(5) phrase(1) show ?thesis by simp
qed

lemma stage3_floor:
  assumes "stage3 f" and b: "2501999792983609 / 4503599627370496 \<le> b"
  shows "1 / 2 \<le> f b"
  using assms(1)
proof cases
  case keep
  with stage2_floor [OF _ b] show ?thesis by simp
next
  case (sentence g)
  from stage2_floor [OF sentence(2) b] have "300 \<le> g b + 300" by simp
  from fl_mono [OF _ this] have "300 \<le> fadd (g b) 300"
    by (simp add: fadd_def ground_floor(6))
  with sentence(1) show ?thesis by simp
next
  case clause
  have "(2501999792983609 / 4503599627370496) / fl (9 / 10) \<le> b / fl (9 / 10)"
    using b by (simp add: fl_constants divide_right_mono)
  from fl_mono [OF _ this]
  have "fdiv (2501999792983609 / 4503599627370496) (fl (9 / 10)) \<le> fdiv b (fl (9 / 10))"
    by (simp add: fdiv_def fl_constants)
  with ground_floor(4) clause show ?thesis by simp
qed

text \<open>
  C8, as the code has it.  For every chunk and every pacing rate \<open>wpm\<close> with
  \<open>0 < wpm \<le> 108000\<close> the rounded delay is strictly positive.  The bound covers the range
  \<open>[50, 1200]\<close> that the gesture handler clamps the rate to and the range of the settings
  slider.
\<close>

theorem delay_positive_up_to_108000:
  assumes "0 < wpm" and "wpm \<le> 108000"
  shows "0 < calculateChunkDelay chunk wpm"
proof -
  from delay_shape [of chunk] obtain f where f: "stage3 f"
    and eq: "\<And>w. calculateChunkDelay chunk w = Math_round (f (fdiv 60000 w))"
    by blast
  from Math_round_pos [OF stage3_floor [OF f base_floor [OF assms]]]
  show ?thesis by (simp add: eq)
qed

theorem delay_positive_up_to_108000_witness:
  "(0::rat) < 1200 \<and> (1200::rat) \<le> 108000 \<and>
   0 < calculateChunkDelay \<lparr>text' = js ''a'', start = 0, end' = 1, kind = Word, focalIndex = 0\<rparr> 1200"
  using delay_positive_up_to_108000
    [of 1200 "\<lparr>text' = js ''a'', start = 0, end' = 1, kind = Word, focalIndex = 0\<rparr>"]
  by simp

text \<open>
  C8 as stated fails for a large rate: at 200000 words per minute the base delay is 0.3 ms,
  which rounds to 0.
\<close>

theorem delay_zero_at_200000:
  "(0::rat) < 200000 \<and>
   \<not> 0 < calculateChunkDelay \<lparr>text' = js ''Hello'', start = 0, end' = 5, kind = Word, focalIndex = 1\<rparr> 200000"
  by code_simp

lemma calculateChunkDelay_fields:
  "calculateChunkDelay c wpm =
     calculateChunkDelay \<lparr>text' = text' c, start = 0, end' = 0, kind = kind c, focalIndex = 0\<rparr> wpm"
  by (simp add: calculateChunkDelay_def)

lemma kind_cases: "k = Word \<or> k = Phrase \<or> k = Entity \<or> k = Idiom"
  by (cases k) simp_all

lemma delay_USA:
  "list_all (\<lambda>k. calculateChunkDelay
       \<lparr>text' = js ''U.S.A.'', start = 0, end' = 0, kind = k, focalIndex = 0\<rparr> 300 = 200)
     [Word, Phrase, Entity, Idiom]"
  by code_simp

lemma delay_Hello_dot:
  "list_all (\<lambda>k. calculateChunkDelay
       \<lparr>text' = js ''Hello.'', start = 0, end' = 0, kind = k, focalIndex = 0\<rparr> 300 = 500)
     [Word, Phrase, Entity, Idiom]"
  by code_simp

lemma USA_facts:
  "trim (js ''U.S.A.'') = js ''U.S.A.''" "length (js ''U.S.A.'') = 6" "isAcronym (js ''U.S.A.'')"
  "trim (js ''Hello.'') = js ''Hello.''" "length (js ''Hello.'') = 6"
  "\<not> isAcronym (js ''Hello.'')" "\<not> isAbbreviation (js ''Hello.'')" "\<not> isNumericComma (js ''Hello.'')"
  by code_simp+

text \<open>
  C4, as the code has it.  A chunk whose text is "U.S.A." has a trimmed token of length 6,
  which takes no length modifier, and matches the acronym pattern, so at 300 words per minute
  its delay is the base delay, 200 ms, without the 300 ms of the sentence break.  A chunk
  whose text is "Hello." has length 6 too, matches none of the three exception patterns, and
  its delay at 300 words per minute is 200 + 300 = 500 ms.
\<close>

theorem acronym_suppression_examples:
  "(text' c = js ''U.S.A.'' \<longrightarrow>
      length (trim (text' c)) = 6 \<and> isAcronym (trim (text' c)) \<and> calculateChunkDelay c 300 = 200) \<and>
   (text' c = js ''Hello.'' \<longrightarrow>
      length (trim (text' c)) = 6 \<and> \<not> isAcronym (trim (text' c)) \<and>
      \<not> isAbbreviation (trim (text' c)) \<and> \<not> isNumericComma (trim (text' c)) \<and>
      calculateChunkDelay c 300 = 500)"
proof -
  have "calculateChunkDelay c 300 = 200" if "text' c = js ''U.S.A.''"
    using delay_USA kind_cases [of "kind c"] that
    by (subst calculateChunkDelay_fields) auto
  moreover have "calculateChunkDelay c 300 = 500" if "text' c = js ''Hello.''"
    using delay_Hello_dot kind_cases [of "kind c"] that
    by (subst calculateChunkDelay_fields) auto
  ultimately show ?thesis by (simp add: USA_facts)
qed

theorem acronym_suppression_examples_witness:
  "calculateChunkDelay \<lparr>text' = js ''U.S.A.'', start = 20, end' = 26, kind = Word, focalIndex = 2\<rparr> 300 = 200"
  using acronym_suppression_examples
    [of "\<lparr>text' = js ''U.S.A.'', start = 20, end' = 26, kind = Word, focalIndex = 2\<rparr>"]
  by simp

text \<open>C4 as stated gives 260 ms for "U.S.A."; the code gives 200 ms.\<close>

theorem USA_delay_is_not_260:
  "calculateChunkDelay \<lparr>text' = js ''U.S.A.'', start = 0, end' = 6, kind = Word, focalIndex = 2\<rparr> 300 \<noteq> 260"
  by code_simp

lemma clause_examples:
  "trim (js ''Hello,'') = js ''Hello,''" "last (js ''Hello,'') = 44"
  "\<not> isAcronym (js ''Hello,'')" "\<not> isAbbreviation (js ''Hello,'')" "\<not> isNumericComma (js ''Hello,'')"
  "Math_round (fdiv (fdiv 60000 300) (fl (9 / 10))) = 222"
  "js ''Hello,'' \<noteq> []"
  by code_simp+

text \<open>
  C5.  For a chunk whose trimmed token ends in a comma, a semicolon or a colon and matches
  none of the three exception patterns, the delay is the rounding of \<open>base / 0.9\<close> with
  \<open>base = 60000 / wpm\<close>, whatever the length of the token, the kind of the chunk and the
  number of its words.  A chunk whose text is "Hello," has the delay 222 ms at 300 words per
  minute.
\<close>

theorem clause_pause_replaces_delay:
  "(trim (text' chunk) \<noteq> [] \<and> last (trim (text' chunk)) \<in> {44, 59, 58} \<and>
    \<not> isAcronym (trim (text' chunk)) \<and> \<not> isAbbreviation (trim (text' chunk)) \<and>
    \<not> isNumericComma (trim (text' chunk)) \<longrightarrow>
      calculateChunkDelay chunk wpm = Math_round (fdiv (fdiv 60000 wpm) (fl (9 / 10)))) \<and>
   (text' chunk = js ''Hello,'' \<longrightarrow> calculateChunkDelay chunk 300 = 222)"
proof -
  have general: "calculateChunkDelay c w = Math_round (fdiv (fdiv 60000 w) (fl (9 / 10)))"
    if "trim (text' c) \<noteq> []" "last (trim (text' c)) \<in> {44, 59, 58}"
      "\<not> isAcronym (trim (text' c))" "\<not> isAbbreviation (trim (text' c))"
      "\<not> isNumericComma (trim (text' c))" for c w
    using that unfolding calculateChunkDelay_def Let_def by (auto simp: js_def)
  have "calculateChunkDelay chunk 300 = 222" if "text' chunk = js ''Hello,''"
    using general [of chunk 300] that by (simp add: clause_examples)
  with general [of chunk wpm] show ?thesis by blast
qed

theorem clause_pause_replaces_delay_witness:
  "calculateChunkDelay \<lparr>text' = js ''Hello,'', start = 0, end' = 6, kind = Word, focalIndex = 2\<rparr> 300 = 222 \<and>
   trim (js ''Hello,'') \<noteq> [] \<and> last (trim (js ''Hello,'')) \<in> {44, 59, 58} \<and>
   \<not> isAcronym (trim (js ''Hello,'')) \<and> \<not> isAbbreviation (trim (js ''Hello,'')) \<and>
   \<not> isNumericComma (trim (js ''Hello,''))"
  using clause_pause_replaces_delay
    [of "\<lparr>text' = js ''Hello,'', start = 0, end' = 6, kind = Word, focalIndex = 2\<rparr>" 300]
  by (simp add: clause_examples)

section \<open>Focal index\<close>

lemma length_trim_le: "length (trim t) \<le> length t"
  using length_dropWhile_le [of is_space "rev (dropWhile is_space t)"]
    length_dropWhile_le [of is_space t]
  by (simp add: trim_def)

lemma focal_product_bounds:
  assumes "2 \<le> n"
  shows "0 < fmul (of_nat n) (fl (7 / 20))" and "fmul (of_nat n) (fl (7 / 20)) < of_nat n"
proof -
  define N :: rat where "N = of_nat n"
  from assms have N: "2 \<le> N" by (simp add: N_def)
  then have pos: "0 < N * (3152519739159347 / 9007199254740992)" by simp
  from fl_positive [OF pos] show "0 < fmul (of_nat n) (fl (7 / 20))"
    by (simp add: fmul_def fl_constants N_def)
  from fl_upper [OF pos] N have "fl (N * (3152519739159347 / 9007199254740992)) < N" by linarith
  then show "fmul (of_nat n) (fl (7 / 20)) < of_nat n"
    by (simp add: fmul_def fl_constants N_def)
qed

lemma focal_lt:
  assumes "2 \<le> n"
  shows "nat (Math_floor (fmul (of_nat n) (fl (7 / 20)))) < n"
proof -
  from focal_product_bounds(2) [OF assms]
  have "Math_floor (fmul (of_nat n) (fl (7 / 20))) < int n"
    by (simp add: Math_floor_def floor_less_iff)
  with assms show ?thesis
    by (cases "0 \<le> Math_floor (fmul (of_nat n) (fl (7 / 20)))") (simp_all add: nat_less_iff)
qed

lemma focal_exact:
  assumes "2 \<le> n" and "n < 2 ^ 32" and "\<not> 20 dvd n"
  shows "nat (Math_floor (fmul (of_nat n) (fl (7 / 20)))) = (n * 7) div 20"
proof -
  define k j where "k = (n * 7) div 20" and "j = (n * 7) mod 20"
  have split: "n * 7 = 20 * k + j" by (simp add: k_def j_def)
  have j: "1 \<le> j" "j \<le> 19"
    using assms(3) unfolding j_def by presburger+
  define N K J :: rat where "N = of_nat n" and "K = of_nat k" and "J = of_nat j"
  from split have "(of_nat (n * 7) :: rat) = of_nat (20 * k + j)" by simp
  then have eq: "N * 7 = 20 * K + J" by (simp add: N_def K_def J_def)
  from j have J: "1 \<le> J" "J \<le> 19" by (simp_all add: J_def)
  from assms(1) have N2: "2 \<le> N" by (simp add: N_def)
  from assms(2) have "(of_nat n :: rat) < of_nat (2 ^ 32)" by (simp only: of_nat_less_iff)
  then have N32: "N < 4294967296" by (simp add: N_def)
  define x where "x = N * (3152519739159347 / 9007199254740992)"
  from N2 have pos: "0 < x" by (simp add: x_def)
  have lo: "K + 1 / 40 \<le> x" and hi: "x \<le> K + 19 / 20"
    using eq J N2 N32 unfolding x_def by linarith+
  have small: "x / 9007199254740992 \<le> 1 / 100"
    using hi eq J N32 by linarith
  from fl_lower [OF pos] fl_upper [OF pos] lo hi small
  have "K \<le> fl x" "fl x < K + 1" by linarith+
  then have "\<lfloor>fl x\<rfloor> = int k"
    by (simp add: floor_unique K_def)
  then show ?thesis
    by (simp add: Math_floor_def fmul_def fl_constants x_def N_def k_def)
qed

lemma focal_near:
  assumes "2 \<le> n" and "n < 2 ^ 32"
  shows "(n * 7) div 20 - 1 \<le> nat (Math_floor (fmul (of_nat n) (fl (7 / 20))))"
    and "nat (Math_floor (fmul (of_nat n) (fl (7 / 20)))) \<le> (n * 7) div 20"
proof -
  define k j where "k = (n * 7) div 20" and "j = (n * 7) mod 20"
  have split: "n * 7 = 20 * k + j" by (simp add: k_def j_def)
  have j: "j \<le> 19" unfolding j_def by presburger
  define N K J :: rat where "N = of_nat n" and "K = of_nat k" and "J = of_nat j"
  from split have "(of_nat (n * 7) :: rat) = of_nat (20 * k + j)" by simp
  then have eq: "N * 7 = 20 * K + J" by (simp add: N_def K_def J_def)
  from j have J: "0 \<le> J" "J \<le> 19" by (simp_all add: J_def)
  from assms(1) have N2: "2 \<le> N" by (simp add: N_def)
  from assms(2) have "(of_nat n :: rat) < of_nat (2 ^ 32)" by (simp only: of_nat_less_iff)
  then have N32: "N < 4294967296" by (simp add: N_def)
  define x where "x = N * (3152519739159347 / 9007199254740992)"
  from N2 have pos: "0 < x" by (simp add: x_def)
  have lo: "K - 1 / 40 \<le> x" and hi: "x \<le> K + 19 / 20"
    using eq J N2 N32 unfolding x_def by linarith+
  have small: "x / 9007199254740992 \<le> 1 / 100"
    using hi eq J N32 by linarith
  from fl_lower [OF pos] fl_upper [OF pos] lo hi small
  have "K - 1 \<le> fl x" "fl x < K + 1" by linarith+
  then have "int k - 1 \<le> \<lfloor>fl x\<rfloor>" "\<lfloor>fl x\<rfloor> \<le> int k"
    by (simp_all add: K_def le_floor_iff floor_le_iff)
  then have "k - 1 \<le> nat \<lfloor>fl x\<rfloor>" "nat \<lfloor>fl x\<rfloor> \<le> k" by linarith+
  then show "(n * 7) div 20 - 1 \<le> nat (Math_floor (fmul (of_nat n) (fl (7 / 20))))"
    and "nat (Math_floor (fmul (of_nat n) (fl (7 / 20)))) \<le> (n * 7) div 20"
    by (simp_all add: Math_floor_def fmul_def fl_constants x_def N_def k_def)
qed

lemma focal_examples:
  "calculateFocalIndex (js ''I'') = 0"
  "calculateFocalIndex (js ''Hello,'') = 2"
  "length (trim (js ''Hello,'')) = 6"
  "calculateFocalIndex (js ''  Hello,  '') = 2"
  "length (js ''  Hello,  '') = 10"
  "length (trim (js ''  Hello,  '')) = 6"
  "js ''  Hello,  '' \<noteq> []"
  by code_simp+

text \<open>
  C6, as the code has it.  The focal index is 0 when the trimmed text has at most one code
  unit, and otherwise the floor of the double product of the trimmed length and 0.35;
  nothing but the surrounding whitespace is stripped, so "Hello," counts 6 code units.  For
  a trimmed length from 2 to below \<open>2^32\<close> this is \<open>\<lfloor>7 * length / 20\<rfloor>\<close> or one less, and it is
  \<open>\<lfloor>7 * length / 20\<rfloor>\<close> whenever the length is not a multiple of 20.  "I" maps to 0 and
  "Hello," to 2, and for every non-empty text the focal index is less than the length of
  the text.
\<close>

theorem focal_index_rule:
  "calculateFocalIndex t =
     (if length (trim t) \<le> 1 then 0
      else nat \<lfloor>fl (of_nat (length (trim t)) * fl (7 / 20))\<rfloor>) \<and>
   (2 \<le> length (trim t) \<and> length (trim t) < 2 ^ 32 \<longrightarrow>
      (length (trim t) * 7) div 20 - 1 \<le> calculateFocalIndex t \<and>
      calculateFocalIndex t \<le> (length (trim t) * 7) div 20 \<and>
      (\<not> 20 dvd length (trim t) \<longrightarrow> calculateFocalIndex t = (length (trim t) * 7) div 20)) \<and>
   calculateFocalIndex (js ''I'') = 0 \<and>
   length (trim (js ''Hello,'')) = 6 \<and> calculateFocalIndex (js ''Hello,'') = 2 \<and>
   (t \<noteq> [] \<longrightarrow> calculateFocalIndex t < length t)"
proof -
  have rule: "calculateFocalIndex t =
     (if length (trim t) \<le> 1 then 0
      else nat \<lfloor>fl (of_nat (length (trim t)) * fl (7 / 20))\<rfloor>)"
    by (simp add: calculateFocalIndex_def Let_def Math_floor_def fmul_def)
  have near: "(length (trim t) * 7) div 20 - 1 \<le> calculateFocalIndex t \<and>
      calculateFocalIndex t \<le> (length (trim t) * 7) div 20"
    if "2 \<le> length (trim t)" "length (trim t) < 2 ^ 32"
    using focal_near [OF that] that(1) by (simp add: calculateFocalIndex_def Let_def)
  have exact: "calculateFocalIndex t = (length (trim t) * 7) div 20"
    if "2 \<le> length (trim t)" "length (trim t) < 2 ^ 32" "\<not> 20 dvd length (trim t)"
    using focal_exact [OF that] that(1) by (simp add: calculateFocalIndex_def Let_def)
  have bound: "calculateFocalIndex t < length t" if "t \<noteq> []"
  proof (cases "length (trim t) \<le> 1")
    case True
    with that show ?thesis by (simp add: calculateFocalIndex_def Let_def)
  next
    case False
    then have "2 \<le> length (trim t)" by simp
    from focal_lt [OF this] False length_trim_le [of t] show ?thesis
      by (simp add: calculateFocalIndex_def Let_def)
  qed
  from rule near exact bound show ?thesis by (simp add: focal_examples)
qed

theorem focal_index_rule_witness:
  "js ''  Hello,  '' \<noteq> [] \<and> length (js ''  Hello,  '') = 10 \<and>
   length (trim (js ''  Hello,  '')) = 6 \<and> \<not> 20 dvd (6::nat) \<and>
   calculateFocalIndex (js ''  Hello,  '') = (6 * 7) div 20 \<and>
   calculateFocalIndex (js ''  Hello,  '') < length (js ''  Hello,  '')"
  using focal_index_rule [of "js ''  Hello,  ''"] by (simp add: focal_examples)

text \<open>
  C6 as stated fails where the double product falls just below the integer
  \<open>7 * length / 20\<close>: for a token of 180 letters the source computes
  \<open>Math.floor(180 * 0.35) = 62\<close>, where \<open>\<lfloor>180 * 0.35\<rfloor> = 63\<close>.
\<close>

theorem focal_index_180_is_62:
  "length (trim (replicate 180 97)) = 180 \<and>
   calculateFocalIndex (replicate 180 97) = 62 \<and>
   nat \<lfloor>of_nat (length (trim (replicate 180 97))) * (35 / 100 :: rat)\<rfloor> = 63"
  by code_simp

end
